theory Spec2Isabelle
  imports Main "HOL-Library.Word"
begin

section \<open>Bytes, errors and the byte stream\<close>

text \<open>
  A Go byte is a \<^typ>\<open>char\<close> (eight bits), a byte slice read as a value is a
  \<^typ>\<open>string\<close>. The three bytes the reader looks for:
\<close>

definition newline :: char where
  "newline = CHR 0x0A"

definition backslash :: char where
  "backslash = CHR 0x5C"

definition quote :: char where
  "quote = CHR 0x27"

text \<open>
  Errors are values. \<open>fmt.Errorf\<close> with a constant text is \<open>Errorf\<close>; the formatted
  errors of the reader keep the arguments of their format string as fields, in the order
  of the format string. \<open>NumError\<close> is \<open>strconv.NumError\<close> (function, input, cause).
\<close>

datatype numerr = ErrSyntax | ErrRange

datatype error =
    EOF
  | StreamError string
  | Errorf string
  | NumError string string numerr
  | Wrapped string error
  | UnreadColumns int string string
  | CannotReadRow int error
  | NoNewline int string
  | ColError string int int string error

text \<open>
  The \<open>io.Reader\<close> is the list of the results its \<open>Read\<close> calls return, a pair
  \<open>(bytes, error)\<close> each; once the list is used up \<open>Read\<close> returns \<open>(0, io.EOF)\<close>.
  The reader passes its 4096-byte array \<open>rBuf\<close> to every \<open>Read\<close>, so no result is
  longer than that; no theorem below needs the bound. A stream that never reports an
  error and never ends is outside this model.
\<close>

type_synonym stream = "(string \<times> error option) list"

definition rBufSize :: nat where
  "rBufSize = 4096"

definition wf_stream :: "stream \<Rightarrow> bool" where
  "wf_stream rs = list_all (\<lambda>x. length (fst x) \<le> rBufSize) rs"

text \<open>\<open>bytes.IndexByte\<close>: the index of the first occurrence, \<open>None\<close> for \<open>-1\<close>.\<close>

fun IndexByte :: "string \<Rightarrow> char \<Rightarrow> nat option" where
  "IndexByte [] c = None"
| "IndexByte (x # xs) c = (if x = c then Some 0 else map_option Suc (IndexByte xs c))"

section \<open>The reader\<close>

text \<open>
  The fields of \<open>Reader\<close>. \<open>tr.b\<close> is always \<open>nil\<close> or a slice of the array under
  \<open>tr.rowBuf\<close> that runs to the end of \<open>tr.rowBuf\<close>; it is kept as its start offset
  in \<open>rowBuf\<close> (\<open>None\<close> is \<open>nil\<close>), so that the in-place writes of \<open>Bytes\<close> into the
  row are seen through both. \<open>rb\<close> and \<open>scratch\<close> never overlap the bytes of the
  current row that \<open>Bytes\<close> writes; they are kept by value. Go's \<open>int\<close> counters are
  \<^typ>\<open>int\<close>: no claim depends on their overflow.
\<close>

record reader =
  r :: stream
  rb :: string
  rErr :: "error option"
  col :: int
  row :: int
  rowBuf :: string
  b :: "nat option"
  scratch :: string
  err :: "error option"
  sep :: char
  needUnescape :: bool

definition NewCustom :: "char \<Rightarrow> stream \<Rightarrow> reader" where
  "NewCustom sp rs =
     \<lparr> r = rs, rb = [], rErr = None, col = 0, row = 0, rowBuf = [], b = None,
       scratch = [], err = None, sep = sp, needUnescape = False \<rparr>"

definition NewCSV :: "stream \<Rightarrow> reader" where
  "NewCSV rs = NewCustom (CHR '','') rs"

definition NewTSV :: "stream \<Rightarrow> reader" where
  "NewTSV rs = NewCustom (CHR 0x09) rs"

definition NewPSV :: "stream \<Rightarrow> reader" where
  "NewPSV rs = NewCustom (CHR ''|'') rs"

definition Reset :: "stream \<Rightarrow> reader \<Rightarrow> reader" where
  "Reset rs tr =
     tr\<lparr> r := rs, rb := [], rErr := None, col := 0, row := 0, rowBuf := [], b := None,
         scratch := [], err := None, needUnescape := False \<rparr>"

definition Error :: "reader \<Rightarrow> error option" where
  "Error tr = (if err tr = Some EOF then None else err tr)"

definition ResetError :: "reader \<Rightarrow> reader" where
  "ResetError tr = tr\<lparr> err := None \<rparr>"

definition HasCols :: "reader \<Rightarrow> bool" where
  "HasCols tr = (length (rowBuf tr) > 0 \<and> b tr \<noteq> None)"

text \<open>The bytes of \<open>tr.b\<close>, for the error text of \<open>Next\<close>.\<close>

definition b_bytes :: "reader \<Rightarrow> string" where
  "b_bytes tr = (case b tr of None \<Rightarrow> [] | Some off \<Rightarrow> drop off (rowBuf tr))"

subsection \<open>Next\<close>

text \<open>\<open>tr.r.Read(tr.rBuf[:])\<close> with the three assignments that follow it.\<close>

definition fill :: "reader \<Rightarrow> reader" where
  "fill tr =
     (case r tr of
        [] \<Rightarrow> tr\<lparr> rb := [], needUnescape := False, rErr := Some EOF \<rparr>
      | x # rest \<Rightarrow>
          tr\<lparr> r := rest, rb := fst x,
              needUnescape := (IndexByte (fst x) backslash \<noteq> None), rErr := snd x \<rparr>)"

text \<open>The error \<open>Next\<close> leaves when the read buffer is empty and the stream has failed.\<close>

definition stream_failed :: "reader \<Rightarrow> reader" where
  "stream_failed tr =
     (case rErr tr of
        None \<Rightarrow> tr
      | Some e \<Rightarrow>
          if e \<noteq> EOF then tr\<lparr> err := Some (CannotReadRow (row tr) e) \<rparr>
          else if length (scratch tr) > 0 then tr\<lparr> err := Some (NoNewline (row tr) (scratch tr)) \<rparr>
          else tr\<lparr> err := Some EOF \<rparr>)"

text \<open>The row found at index \<open>n\<close> of \<open>tr.rb\<close> (the fast path of the loop).\<close>

definition row_found :: "nat \<Rightarrow> reader \<Rightarrow> reader" where
  "row_found n tr =
     (let line = take n (rb tr);
          tr1 = tr\<lparr> rb := drop (n + 1) (rb tr) \<rparr>;
          tr2 = (if length (scratch tr1) > 0
                 then tr1\<lparr> rowBuf := scratch tr1 @ line, scratch := [] \<rparr>
                 else tr1\<lparr> rowBuf := line \<rparr>)
      in tr2\<lparr> b := Some 0 \<rparr>)"

function next_loop :: "reader \<Rightarrow> bool \<times> reader" where
  "next_loop tr =
     (if length (rb tr) = 0 \<and> rErr tr \<noteq> None then (False, stream_failed tr)
      else
        let tr1 = (if length (rb tr) = 0 then fill tr else tr) in
        case IndexByte (rb tr1) newline of
          Some n \<Rightarrow> (True, row_found n tr1)
        | None \<Rightarrow> next_loop (tr1\<lparr> scratch := scratch tr1 @ rb tr1, rb := [] \<rparr>))"
  by pat_completeness auto
termination
  by (relation "measure (\<lambda>tr. 2 * length (r tr) + (if rErr tr = None then 2 else 0)
                              + (if rb tr = [] then 0 else 1))")
     (auto simp: fill_def split: list.splits if_splits)

declare next_loop.simps [simp del]

definition Next :: "reader \<Rightarrow> bool \<times> reader" where
  "Next tr =
     (if err tr \<noteq> None then (False, tr)
      else if HasCols tr
      then (False, tr\<lparr> err := Some (UnreadColumns (row tr) (rowBuf tr) (b_bytes tr)) \<rparr>)
      else next_loop (tr\<lparr> row := row tr + 1, col := 0, rowBuf := [] \<rparr>))"

subsection \<open>Columns\<close>

text \<open>
  A column is a slice of the row: its start offset in \<open>rowBuf\<close> and its length.
\<close>

type_synonym slice = "nat \<times> nat"

definition slice_bytes :: "string \<Rightarrow> slice \<Rightarrow> string" where
  "slice_bytes buf sl = take (snd sl) (drop (fst sl) buf)"

definition nextCol :: "reader \<Rightarrow> (error + slice) \<times> reader" where
  "nextCol tr =
     (if row tr = 0 then (Inl (Errorf ''missing Next call''), tr)
      else
        let tr1 = tr\<lparr> col := col tr + 1 \<rparr> in
        case b tr1 of
          None \<Rightarrow> (Inl (Errorf ''no more columns''), tr1)
        | Some off \<Rightarrow>
            (case IndexByte (drop off (rowBuf tr1)) (sep tr1) of
               None \<Rightarrow> (Inr (off, length (rowBuf tr1) - off), tr1\<lparr> b := None \<rparr>)
             | Some n \<Rightarrow> (Inr (off, n), tr1\<lparr> b := Some (off + n + 1) \<rparr>)))"

definition setColError :: "string \<Rightarrow> error \<Rightarrow> reader \<Rightarrow> reader" where
  "setColError msg e tr = tr\<lparr> err := Some (ColError msg (row tr) (col tr) (rowBuf tr) e) \<rparr>"

definition SkipCol :: "reader \<Rightarrow> reader" where
  "SkipCol tr =
     (if err tr \<noteq> None then tr
      else case nextCol tr of
             (Inl e, tr1) \<Rightarrow> setColError ''cannot skip column'' e tr1
           | (Inr sl, tr1) \<Rightarrow> tr1)"

subsection \<open>Bytes and String\<close>

text \<open>The \<open>switch\<close> of \<open>Bytes\<close>: the byte an escaped byte stands for.\<close>

definition unescape_byte :: "char \<Rightarrow> char" where
  "unescape_byte c =
     (if c = CHR ''b'' then CHR 0x08
      else if c = CHR ''f'' then CHR 0x0C
      else if c = CHR ''r'' then CHR 0x0D
      else if c = CHR ''n'' then CHR 0x0A
      else if c = CHR ''t'' then CHR 0x09
      else if c = CHR ''0'' then CHR 0x00
      else if c = quote then quote
      else if c = backslash then backslash
      else c)"

text \<open>
  \<open>append(d, src...)\<close> where \<open>d\<close> ends at offset \<open>dst\<close> of the array, \<open>src\<close> is the
  \<open>n\<close> bytes at offset \<open>src\<close> of the same array and the capacity of \<open>d\<close> suffices:
  the bytes are moved inside the array (as \<open>memmove\<close> does, overlap allowed).
\<close>

definition copy_within :: "string \<Rightarrow> nat \<Rightarrow> nat \<Rightarrow> nat \<Rightarrow> string" where
  "copy_within buf dst src n = take dst buf @ take n (drop src buf) @ drop (dst + n) buf"

text \<open>
  The unescaping loop of \<open>Bytes\<close> on the array \<open>buf\<close> of the row: \<open>d\<close> is the slice
  that starts where the column starts and ends at \<open>de\<close>, \<open>b\<close> is the slice from
  \<open>bs\<close> to the end \<open>ce\<close> of the column. The loop returns the array and the end of
  \<open>d\<close>. \<open>d\<close> never outgrows the part of the column already consumed, so every
  \<open>append\<close> stays within the capacity.
\<close>

function unescape_loop :: "string \<Rightarrow> nat \<Rightarrow> nat \<Rightarrow> nat \<Rightarrow> string \<times> nat" where
  "unescape_loop buf de bs ce =
     (if ce - bs > 0 then
        let buf1 = buf[de - 1 := unescape_byte (buf ! bs)];
            bs1 = bs + 1
        in case IndexByte (take (ce - bs1) (drop bs1 buf1)) backslash of
             None \<Rightarrow> (copy_within buf1 de bs1 (ce - bs1), de + (ce - bs1))
           | Some n \<Rightarrow>
               unescape_loop (copy_within buf1 de bs1 (n + 1)) (de + (n + 1)) (bs1 + (n + 1)) ce
      else (buf, de))"
  by pat_completeness auto
termination
  by (relation "measure (\<lambda>(buf, de, bs, ce). ce - bs)") auto

declare unescape_loop.simps [simp del]

definition Bytes :: "reader \<Rightarrow> string option \<times> reader" where
  "Bytes tr =
     (if err tr \<noteq> None then (None, tr)
      else case nextCol tr of
        (Inl e, tr1) \<Rightarrow> (None, setColError ''cannot read `bytes`'' e tr1)
      | (Inr sl, tr1) \<Rightarrow>
          if \<not> needUnescape tr1 then (Some (slice_bytes (rowBuf tr1) sl), tr1)
          else
            (case IndexByte (slice_bytes (rowBuf tr1) sl) backslash of
               None \<Rightarrow> (Some (slice_bytes (rowBuf tr1) sl), tr1)
             | Some n \<Rightarrow>
                 let cs = fst sl;
                     ce = fst sl + snd sl;
                     res = unescape_loop (rowBuf tr1) (cs + (n + 1)) (cs + (n + 1)) ce
                 in (Some (slice_bytes (fst res) (cs, snd res - cs)),
                     tr1\<lparr> rowBuf := fst res \<rparr>)))"

text \<open>\<open>string(tr.Bytes())\<close>: the string of a \<open>nil\<close> slice is empty.\<close>

definition String :: "reader \<Rightarrow> string \<times> reader" where
  "String tr = (case Bytes tr of (None, tr1) \<Rightarrow> ([], tr1) | (Some bs, tr1) \<Rightarrow> (bs, tr1))"

section \<open>The functions of \<open>strconv\<close> and \<open>time\<close> the decoders call\<close>

text \<open>
  \<open>strconv.ParseUint(s, 10, bitSize)\<close>, \<open>strconv.ParseInt(s, 10, bitSize)\<close> and
  \<open>strconv.Atoi\<close> of the Go standard library, on a platform whose \<open>int\<close> has 64 bits
  (\<open>strconv.IntSize = 64\<close>). The digits are read from the left; the first byte that is
  no decimal digit is a syntax error, the first step that leaves the range a range error.
  The value the library returns beside an error is never used by the reader and is left out.
\<close>

definition is_digit :: "char \<Rightarrow> bool" where
  "is_digit c = ((48::nat) \<le> of_char c \<and> of_char c \<le> (57::nat))"

definition digit :: "char \<Rightarrow> int" where
  "digit c = int (of_char c) - 48"

definition maxUint64 :: int where
  "maxUint64 = 2 ^ 64 - 1"

fun parse_digits :: "int \<Rightarrow> int \<Rightarrow> string \<Rightarrow> numerr + int" where
  "parse_digits maxVal n [] = Inr n"
| "parse_digits maxVal n (c # cs) =
     (if \<not> is_digit c then Inl ErrSyntax
      else if n \<ge> maxUint64 div 10 + 1 then Inl ErrRange
      else
        let m = n * 10;
            n1 = (m + digit c) mod 2 ^ 64
        in if n1 < m \<or> n1 > maxVal then Inl ErrRange else parse_digits maxVal n1 cs)"

definition ParseUint :: "string \<Rightarrow> nat \<Rightarrow> error + int" where
  "ParseUint s bitSize =
     (if s = [] then Inl (NumError ''ParseUint'' s ErrSyntax)
      else case parse_digits (2 ^ bitSize - 1) 0 s of
             Inl k \<Rightarrow> Inl (NumError ''ParseUint'' s k)
           | Inr n \<Rightarrow> Inr n)"

definition ParseInt :: "string \<Rightarrow> nat \<Rightarrow> error + int" where
  "ParseInt s bitSize =
     (if s = [] then Inl (NumError ''ParseInt'' s ErrSyntax)
      else
        let neg = (hd s = CHR ''-'');
            s1 = (if hd s = CHR ''+'' \<or> hd s = CHR ''-'' then tl s else s);
            cutoff = 2 ^ (bitSize - 1)
        in case (if s1 = [] then Inl ErrSyntax else parse_digits (2 ^ bitSize - 1) 0 s1) of
             Inl ErrSyntax \<Rightarrow> Inl (NumError ''ParseInt'' s ErrSyntax)
           | Inl ErrRange \<Rightarrow> Inl (NumError ''ParseInt'' s ErrRange)
           | Inr un \<Rightarrow>
               if \<not> neg \<and> un \<ge> cutoff then Inl (NumError ''ParseInt'' s ErrRange)
               else if neg \<and> un > cutoff then Inl (NumError ''ParseInt'' s ErrRange)
               else Inr (if neg then - un else un))"

text \<open>
  \<open>Atoi\<close> is \<open>ParseInt(s, 10, 0)\<close> with the function name of the error replaced; its
  fast path for short inputs computes the same result.
\<close>

definition Atoi :: "string \<Rightarrow> error + int" where
  "Atoi s =
     (case ParseInt s 64 of
        Inl (NumError f num k) \<Rightarrow> Inl (NumError ''Atoi'' num k)
      | Inl e \<Rightarrow> Inl e
      | Inr n \<Rightarrow> Inr n)"

text \<open>
  A \<open>time.Time\<close> that \<open>time.Date\<close> builds in UTC with no nanoseconds is determined by
  its seconds since the zero time, January 1 of year 1, 00:00:00 UTC (the other fields of
  the struct are 0 and \<open>nil\<close>); the zero \<open>time.Time\<close> has 0 seconds. \<open>time.Date\<close>
  normalises its arguments: the month overflows into the year, second, minute and hour
  overflow into the day, and the day is counted from the first of the month in the
  proleptic Gregorian calendar. The carries of second, minute, hour and day add up to the
  sum below. The arithmetic of Go is on 64 bits; the decoders pass fields of at most four
  bytes, far from its bounds.
\<close>

datatype time = Time int

definition zeroTime :: time where
  "zeroTime = Time 0"

definition isLeap :: "int \<Rightarrow> bool" where
  "isLeap y = (y mod 4 = 0 \<and> (y mod 100 \<noteq> 0 \<or> y mod 400 = 0))"

definition daysBefore :: "int list" where
  "daysBefore = [0, 31, 59, 90, 120, 151, 181, 212, 243, 273, 304, 334]"

text \<open>The days from January 1 of year 1 to January 1 of year \<open>y\<close>.\<close>

definition days_before_year :: "int \<Rightarrow> int" where
  "days_before_year y = 365 * (y - 1) + (y - 1) div 4 - (y - 1) div 100 + (y - 1) div 400"

definition time_Date :: "int \<Rightarrow> int \<Rightarrow> int \<Rightarrow> int \<Rightarrow> int \<Rightarrow> int \<Rightarrow> time" where
  "time_Date y m d h mi s =
     (let m0 = m - 1;
          y1 = y + m0 div 12;
          m1 = m0 mod 12;
          days = days_before_year y1 + daysBefore ! nat m1
                 + (if isLeap y1 \<and> m1 \<ge> 2 then 1 else 0) + (d - 1)
      in Time (days * 86400 + h * 3600 + mi * 60 + s))"

section \<open>Typed decoders\<close>

text \<open>
  The integer decoders return machine integers: a value of Go's \<open>intN\<close> or \<open>uintN\<close> is
  an \<open>N word\<close> (read with \<open>sint\<close> when signed), \<open>int\<close> and \<open>uint\<close> have 64 bits.
  \<open>b2s\<close> reads the bytes of the column as a string without copying. The decoder \<open>Int\<close>
  is \<open>Int'\<close> here (\<open>Int\<close> is the intersection of sets in HOL).
\<close>

definition Int' :: "reader \<Rightarrow> 64 word \<times> reader" where
  "Int' tr =
     (if err tr \<noteq> None then (0, tr)
      else case nextCol tr of
        (Inl e, tr1) \<Rightarrow> (0, setColError ''cannot read `int`'' e tr1)
      | (Inr sl, tr1) \<Rightarrow>
          (let s = slice_bytes (rowBuf tr1) sl in
           case Atoi s of
             Inl e \<Rightarrow> (0, setColError ''cannot parse `int`'' e tr1)
           | Inr n \<Rightarrow> (word_of_int n, tr1)))"

definition Uint :: "reader \<Rightarrow> 64 word \<times> reader" where
  "Uint tr =
     (if err tr \<noteq> None then (0, tr)
      else case nextCol tr of
        (Inl e, tr1) \<Rightarrow> (0, setColError ''cannot read `uint`'' e tr1)
      | (Inr sl, tr1) \<Rightarrow>
          (let s = slice_bytes (rowBuf tr1) sl in
           case Atoi s of
             Inr n \<Rightarrow>
               if n \<ge> 0 then (word_of_int n, tr1)
               else (case ParseUint s 64 of
                       Inl e \<Rightarrow> (0, setColError ''cannot parse `uint`'' e tr1)
                     | Inr m \<Rightarrow> (word_of_int m, tr1))
           | Inl e0 \<Rightarrow>
               (case ParseUint s 64 of
                  Inl e \<Rightarrow> (0, setColError ''cannot parse `uint`'' e tr1)
                | Inr m \<Rightarrow> (word_of_int m, tr1))))"

definition Int32 :: "reader \<Rightarrow> 32 word \<times> reader" where
  "Int32 tr =
     (if err tr \<noteq> None then (0, tr)
      else case nextCol tr of
        (Inl e, tr1) \<Rightarrow> (0, setColError ''cannot read `int32`'' e tr1)
      | (Inr sl, tr1) \<Rightarrow>
          (let s = slice_bytes (rowBuf tr1) sl in
           case Atoi s of
             Inr n \<Rightarrow>
               if n \<ge> - (2 ^ 31) \<and> n \<le> 2 ^ 31 - 1 then (word_of_int n, tr1)
               else (case ParseInt s 32 of
                       Inl e \<Rightarrow> (0, setColError ''cannot parse `int32`'' e tr1)
                     | Inr m \<Rightarrow> (word_of_int m, tr1))
           | Inl e0 \<Rightarrow>
               (case ParseInt s 32 of
                  Inl e \<Rightarrow> (0, setColError ''cannot parse `int32`'' e tr1)
                | Inr m \<Rightarrow> (word_of_int m, tr1))))"

definition Uint32 :: "reader \<Rightarrow> 32 word \<times> reader" where
  "Uint32 tr =
     (if err tr \<noteq> None then (0, tr)
      else case nextCol tr of
        (Inl e, tr1) \<Rightarrow> (0, setColError ''cannot read `uint32`'' e tr1)
      | (Inr sl, tr1) \<Rightarrow>
          (let s = slice_bytes (rowBuf tr1) sl in
           case Atoi s of
             Inr n \<Rightarrow>
               if n \<ge> 0 \<and> n \<le> 2 ^ 32 - 1 then (word_of_int n, tr1)
               else (case ParseUint s 32 of
                       Inl e \<Rightarrow> (0, setColError ''cannot parse `uint32`'' e tr1)
                     | Inr m \<Rightarrow> (word_of_int m, tr1))
           | Inl e0 \<Rightarrow>
               (case ParseUint s 32 of
                  Inl e \<Rightarrow> (0, setColError ''cannot parse `uint32`'' e tr1)
                | Inr m \<Rightarrow> (word_of_int m, tr1))))"

definition Int16 :: "reader \<Rightarrow> 16 word \<times> reader" where
  "Int16 tr =
     (if err tr \<noteq> None then (0, tr)
      else case nextCol tr of
        (Inl e, tr1) \<Rightarrow> (0, setColError ''cannot read `int16`'' e tr1)
      | (Inr sl, tr1) \<Rightarrow>
          (let s = slice_bytes (rowBuf tr1) sl in
           case Atoi s of
             Inl e \<Rightarrow> (0, setColError ''cannot parse `int16`'' e tr1)
           | Inr n \<Rightarrow>
               if n < - (2 ^ 15) \<or> n > 2 ^ 15 - 1
               then (0, setColError ''cannot parse `int16`'' (Errorf ''out of range'') tr1)
               else (word_of_int n, tr1)))"

definition Uint16 :: "reader \<Rightarrow> 16 word \<times> reader" where
  "Uint16 tr =
     (if err tr \<noteq> None then (0, tr)
      else case nextCol tr of
        (Inl e, tr1) \<Rightarrow> (0, setColError ''cannot read `uint16`'' e tr1)
      | (Inr sl, tr1) \<Rightarrow>
          (let s = slice_bytes (rowBuf tr1) sl in
           case Atoi s of
             Inl e \<Rightarrow> (0, setColError ''cannot parse `uint16`'' e tr1)
           | Inr n \<Rightarrow>
               if n < 0
               then (0, setColError ''cannot parse `uint16`'' (Errorf ''invalid syntax'') tr1)
               else if n > 2 ^ 16 - 1
               then (0, setColError ''cannot parse `uint16`'' (Errorf ''out of range'') tr1)
               else (word_of_int n, tr1)))"

definition Int8 :: "reader \<Rightarrow> 8 word \<times> reader" where
  "Int8 tr =
     (if err tr \<noteq> None then (0, tr)
      else case nextCol tr of
        (Inl e, tr1) \<Rightarrow> (0, setColError ''cannot read `int8`'' e tr1)
      | (Inr sl, tr1) \<Rightarrow>
          (let s = slice_bytes (rowBuf tr1) sl in
           case Atoi s of
             Inl e \<Rightarrow> (0, setColError ''cannot parse `int8`'' e tr1)
           | Inr n \<Rightarrow>
               if n < - (2 ^ 7) \<or> n > 2 ^ 7 - 1
               then (0, setColError ''cannot parse `int8`'' (Errorf ''out of range'') tr1)
               else (word_of_int n, tr1)))"

definition Uint8 :: "reader \<Rightarrow> 8 word \<times> reader" where
  "Uint8 tr =
     (if err tr \<noteq> None then (0, tr)
      else case nextCol tr of
        (Inl e, tr1) \<Rightarrow> (0, setColError ''cannot read `uint8`'' e tr1)
      | (Inr sl, tr1) \<Rightarrow>
          (let s = slice_bytes (rowBuf tr1) sl in
           case Atoi s of
             Inl e \<Rightarrow> (0, setColError ''cannot parse `uint8`'' e tr1)
           | Inr n \<Rightarrow>
               if n < 0
               then (0, setColError ''cannot parse `uint8`'' (Errorf ''invalid syntax'') tr1)
               else if n > 2 ^ 8 - 1
               then (0, setColError ''cannot parse `uint8`'' (Errorf ''out of range'') tr1)
               else (word_of_int n, tr1)))"

definition Int64 :: "reader \<Rightarrow> 64 word \<times> reader" where
  "Int64 tr =
     (if err tr \<noteq> None then (0, tr)
      else case nextCol tr of
        (Inl e, tr1) \<Rightarrow> (0, setColError ''cannot read `int64`'' e tr1)
      | (Inr sl, tr1) \<Rightarrow>
          (let s = slice_bytes (rowBuf tr1) sl in
           case Atoi s of
             Inr n \<Rightarrow>
               if n \<ge> - (2 ^ 63) \<and> n \<le> 2 ^ 63 - 1 then (word_of_int n, tr1)
               else (case ParseInt s 64 of
                       Inl e \<Rightarrow> (0, setColError ''cannot parse `int64`'' e tr1)
                     | Inr m \<Rightarrow> (word_of_int m, tr1))
           | Inl e0 \<Rightarrow>
               (case ParseInt s 64 of
                  Inl e \<Rightarrow> (0, setColError ''cannot parse `int64`'' e tr1)
                | Inr m \<Rightarrow> (word_of_int m, tr1))))"

definition Uint64 :: "reader \<Rightarrow> 64 word \<times> reader" where
  "Uint64 tr =
     (if err tr \<noteq> None then (0, tr)
      else case nextCol tr of
        (Inl e, tr1) \<Rightarrow> (0, setColError ''cannot read `uint64`'' e tr1)
      | (Inr sl, tr1) \<Rightarrow>
          (let s = slice_bytes (rowBuf tr1) sl in
           case Atoi s of
             Inr n \<Rightarrow>
               if n \<ge> 0 \<and> n \<le> maxUint64 then (word_of_int n, tr1)
               else (case ParseUint s 64 of
                       Inl e \<Rightarrow> (0, setColError ''cannot parse `uint64`'' e tr1)
                     | Inr m \<Rightarrow> (word_of_int m, tr1))
           | Inl e0 \<Rightarrow>
               (case ParseUint s 64 of
                  Inl e \<Rightarrow> (0, setColError ''cannot parse `uint64`'' e tr1)
                | Inr m \<Rightarrow> (word_of_int m, tr1))))"

text \<open>
  \<open>strconv.ParseFloat\<close> is floating-point arithmetic and is not modelled: the float
  decoders take it as the parameter \<open>parseFloat\<close> (bit size, input), with any type
  \<open>'f\<close> for the floats.
\<close>

definition Float32 :: "(nat \<Rightarrow> string \<Rightarrow> error + 'f) \<Rightarrow> reader \<Rightarrow> ('f::zero) \<times> reader" where
  "Float32 parseFloat tr =
     (if err tr \<noteq> None then (0, tr)
      else case nextCol tr of
        (Inl e, tr1) \<Rightarrow> (0, setColError ''cannot read `float32`'' e tr1)
      | (Inr sl, tr1) \<Rightarrow>
          (case parseFloat 32 (slice_bytes (rowBuf tr1) sl) of
             Inl e \<Rightarrow> (0, setColError ''cannot parse `float32`'' e tr1)
           | Inr f32 \<Rightarrow> (f32, tr1)))"

definition Float64 :: "(nat \<Rightarrow> string \<Rightarrow> error + 'f) \<Rightarrow> reader \<Rightarrow> ('f::zero) \<times> reader" where
  "Float64 parseFloat tr =
     (if err tr \<noteq> None then (0, tr)
      else case nextCol tr of
        (Inl e, tr1) \<Rightarrow> (0, setColError ''cannot read `float64`'' e tr1)
      | (Inr sl, tr1) \<Rightarrow>
          (case parseFloat 64 (slice_bytes (rowBuf tr1) sl) of
             Inl e \<Rightarrow> (0, setColError ''cannot parse `float64`'' e tr1)
           | Inr f64 \<Rightarrow> (f64, tr1)))"

subsection \<open>Dates\<close>

definition parseDate :: "string \<Rightarrow> error + (int \<times> int \<times> int)" where
  "parseDate s =
     (if length s \<noteq> 10 then Inl (Errorf ''too short date'')
      else if s ! 4 \<noteq> CHR ''-'' \<and> s ! 7 \<noteq> CHR ''-''
      then Inl (Errorf ''invalid date format. Must be YYYY-MM-DD'')
      else
        (case Atoi (take 4 s) of
           Inl e \<Rightarrow> Inl (Wrapped ''invalid year'' e)
         | Inr y \<Rightarrow>
             (case Atoi (take 2 (drop 5 s)) of
                Inl e \<Rightarrow> Inl (Wrapped ''invalid month'' e)
              | Inr m \<Rightarrow>
                  (case Atoi (drop 8 s) of
                     Inl e \<Rightarrow> Inl (Wrapped ''invalid day'' e)
                   | Inr d \<Rightarrow> Inr (y, m, d)))))"

definition parseDateTime :: "string \<Rightarrow> error + time" where
  "parseDateTime s0 =
     (if length s0 \<noteq> 19 then Inl (Errorf ''too short datetime'')
      else
        (case parseDate (take 10 s0) of
           Inl e \<Rightarrow> Inl e
         | Inr (y, m, d) \<Rightarrow>
             (let s = drop 10 s0 in
              if s ! 0 \<noteq> CHR '' '' \<or> s ! 3 \<noteq> CHR '':'' \<or> s ! 6 \<noteq> CHR '':''
              then Inl (Errorf ''invalid time format. Must be hh:mm:ss'')
              else
                (case Atoi (take 2 (drop 1 s)) of
                   Inl e \<Rightarrow> Inl (Wrapped ''invalid hour'' e)
                 | Inr h \<Rightarrow>
                     (case Atoi (take 2 (drop 4 s)) of
                        Inl e \<Rightarrow> Inl (Wrapped ''invalid minute'' e)
                      | Inr mi \<Rightarrow>
                          (case Atoi (drop 7 s) of
                             Inl e \<Rightarrow> Inl (Wrapped ''invalid second'' e)
                           | Inr sec \<Rightarrow>
                               if y = 0 \<and> m = 0 \<and> d = 0 then Inr zeroTime
                               else Inr (time_Date y m d h mi sec)))))))"

definition Date :: "reader \<Rightarrow> time \<times> reader" where
  "Date tr =
     (if err tr \<noteq> None then (zeroTime, tr)
      else case nextCol tr of
        (Inl e, tr1) \<Rightarrow> (zeroTime, setColError ''cannot read `date`'' e tr1)
      | (Inr sl, tr1) \<Rightarrow>
          (case parseDate (slice_bytes (rowBuf tr1) sl) of
             Inl e \<Rightarrow> (zeroTime, setColError ''cannot parse `date`'' e tr1)
           | Inr (y, m, d) \<Rightarrow>
               if y = 0 \<and> m = 0 \<and> d = 0 then (zeroTime, tr1)
               else (time_Date y m d 0 0 0, tr1)))"

definition DateTime :: "reader \<Rightarrow> time \<times> reader" where
  "DateTime tr =
     (if err tr \<noteq> None then (zeroTime, tr)
      else case nextCol tr of
        (Inl e, tr1) \<Rightarrow> (zeroTime, setColError ''cannot read `datetime`'' e tr1)
      | (Inr sl, tr1) \<Rightarrow>
          (case parseDateTime (slice_bytes (rowBuf tr1) sl) of
             Inl e \<Rightarrow> (zeroTime, setColError ''cannot parse `datetime`'' e tr1)
           | Inr dt \<Rightarrow> (dt, tr1)))"

section \<open>Notions the properties are stated with\<close>

text \<open>
  The bytes a stream still delivers: those of its results up to the first one that
  carries an error, and that error (\<open>io.EOF\<close> when the list runs out).
\<close>

fun stream_bytes :: "stream \<Rightarrow> string" where
  "stream_bytes [] = []"
| "stream_bytes (x # rs) = fst x @ (if snd x = None then stream_bytes rs else [])"

fun stream_err :: "stream \<Rightarrow> error" where
  "stream_err [] = EOF"
| "stream_err (x # rs) = (case snd x of None \<Rightarrow> stream_err rs | Some e \<Rightarrow> e)"

text \<open>
  What the reader has not yet searched for a newline: the rest of its read buffer and,
  unless the stream has failed already, what the stream still delivers; and the error the
  reader will meet at the end of that.
\<close>

definition pending :: "reader \<Rightarrow> string" where
  "pending tr = rb tr @ (if rErr tr = None then stream_bytes (r tr) else [])"

definition final_err :: "reader \<Rightarrow> error" where
  "final_err tr = (case rErr tr of Some e \<Rightarrow> e | None \<Rightarrow> stream_err (r tr))"

text \<open>The reader after a successful \<open>Next\<close> on the one-row CSV input \<open>s\<close>, newline added.\<close>

definition one_row :: "string \<Rightarrow> reader" where
  "one_row s = snd (Next (NewCSV [(s @ [newline], None)]))"

text \<open>A reader with a sticky error: a column was asked for before any \<open>Next\<close>.\<close>

definition failed_reader :: reader where
  "failed_reader = snd (Bytes (NewCSV []))"

text \<open>
  A well-formed time of day in a 19-byte date-time column: a space and two colons at the
  fixed offsets and three fields that \<open>Atoi\<close> accepts.
\<close>

definition time_of_day_ok :: "string \<Rightarrow> bool" where
  "time_of_day_ok s =
     (s ! 10 = CHR '' '' \<and> s ! 13 = CHR '':'' \<and> s ! 16 = CHR '':'' \<and>
      \<not> isl (Atoi (take 2 (drop 11 s))) \<and> \<not> isl (Atoi (take 2 (drop 14 s))) \<and>
      \<not> isl (Atoi (drop 17 s)))"

text \<open>
  The input format: the columns of a row joined by the separator, a newline after each
  row. \<open>chunked\<close> is the stream that delivers the given chunks, one per \<open>Read\<close>, none
  with an error, and then \<open>io.EOF\<close>.
\<close>

fun join :: "char \<Rightarrow> string list \<Rightarrow> string" where
  "join sp [] = []"
| "join sp [c] = c"
| "join sp (c # cs) = c @ sp # join sp cs"

definition encode_rows :: "char \<Rightarrow> string list list \<Rightarrow> string" where
  "encode_rows sp rows = concat (map (\<lambda>cs. join sp cs @ [newline]) rows)"

definition chunked :: "string list \<Rightarrow> stream" where
  "chunked chunks = map (\<lambda>c. (c, None)) chunks"

text \<open>
  The caller of the reader: \<open>read_cols get n\<close> calls the accessor \<open>get\<close> \<open>n\<close> times,
  \<open>read_rows get ns\<close> calls \<open>Next\<close> and then reads as many columns as \<open>ns\<close> says for
  that row, until \<open>ns\<close> is used up or \<open>Next\<close> returns false.
\<close>

fun read_cols :: "(reader \<Rightarrow> 'a \<times> reader) \<Rightarrow> nat \<Rightarrow> reader \<Rightarrow> 'a list \<times> reader" where
  "read_cols get 0 tr = ([], tr)"
| "read_cols get (Suc n) tr =
     (case get tr of (v, tr1) \<Rightarrow>
        (case read_cols get n tr1 of (vs, tr2) \<Rightarrow> (v # vs, tr2)))"

fun read_rows :: "(reader \<Rightarrow> 'a \<times> reader) \<Rightarrow> nat list \<Rightarrow> reader \<Rightarrow> 'a list list \<times> reader" where
  "read_rows get [] tr = ([], tr)"
| "read_rows get (n # ns) tr =
     (case Next tr of
        (False, tr1) \<Rightarrow> ([], tr1)
      | (True, tr1) \<Rightarrow>
          (case read_cols get n tr1 of (vs, tr2) \<Rightarrow>
             (case read_rows get ns tr2 of (rows, tr3) \<Rightarrow> (vs # rows, tr3))))"

text \<open>
  Unescaping as the specification words it: every two-byte sequence of the marker and a
  following byte is replaced by one byte, looked up in the table, and by the following
  byte itself when the table has no entry. A marker that ends the column has no
  following byte and stays. \<open>after_marker m bs\<close> is the decoding of what follows a marker
  \<open>m\<close>.
\<close>

definition escape_table :: "(char \<times> char) list" where
  "escape_table =
     [(CHR ''b'', CHR 0x08), (CHR ''f'', CHR 0x0C), (CHR ''r'', CHR 0x0D), (CHR ''n'', CHR 0x0A),
      (CHR ''t'', CHR 0x09), (CHR ''0'', CHR 0x00), (CHR 0x27, CHR 0x27), (CHR 0x5C, CHR 0x5C)]"

definition decoded :: "char \<Rightarrow> char" where
  "decoded c = (case map_of escape_table c of Some d \<Rightarrow> d | None \<Rightarrow> c)"

fun unescaped :: "string \<Rightarrow> string" where
  "unescaped [] = []"
| "unescaped [c] = [c]"
| "unescaped (c # c' # cs) =
     (if c = CHR 0x5C then decoded c' # unescaped cs else c # unescaped (c' # cs))"

fun after_marker :: "char \<Rightarrow> string \<Rightarrow> string" where
  "after_marker m [] = [m]"
| "after_marker m (c # cs) = decoded c # unescaped cs"

text \<open>
  Three streams: the row of the five bytes a, marker, t, b, c delivered in one read and
  in two, and the row of the four bytes x, marker, n, y with the marker in the first of
  two reads.
\<close>

definition row_in_one_read :: stream where
  "row_in_one_read = chunked [''a'' @ [backslash] @ ''tbc'' @ [newline]]"

definition row_in_two_reads :: stream where
  "row_in_two_reads = chunked [''a'' @ [backslash] @ ''tb'', ''c'' @ [newline]]"

definition marker_before_last_read :: stream where
  "marker_before_last_read = chunked [''x'' @ [backslash] @ ''n'', ''y'' @ [newline]]"


definition skip :: "reader \<Rightarrow> unit \<times> reader" where
  "skip t = ((), SkipCol t)"

section \<open>The row splitter\<close>

lemma IndexByte_None: "(IndexByte xs c = None) = (c \<notin> set xs)"
  by (induction xs) auto

lemma IndexByte_first: "c \<notin> set xs \<Longrightarrow> IndexByte (xs @ c # ys) c = Some (length xs)"
  by (induction xs) auto

lemma IndexByte_Some:
  "IndexByte xs c = Some n \<Longrightarrow> xs = take n xs @ c # drop (Suc n) xs \<and> c \<notin> set (take n xs) \<and> n < length xs"
  by (induction xs arbitrary: n) (auto split: if_splits)

lemma pending_fill: "rb tr = [] \<Longrightarrow> rErr tr = None \<Longrightarrow> pending (fill tr) = pending tr"
  by (auto simp: pending_def fill_def split: list.splits)

lemma final_err_fill: "rErr tr = None \<Longrightarrow> final_err (fill tr) = final_err tr"
  by (auto simp: final_err_def fill_def split: list.splits option.splits)

lemma split_first:
  assumes "xs @ ys = line @ c # rest" "c \<notin> set line" "c \<notin> set xs"
  shows "\<exists>line'. line = xs @ line' \<and> ys = line' @ c # rest"
  using assms
proof (induction xs arbitrary: line)
  case Nil then show ?case by simp
next
  case (Cons x xs)
  then show ?case by (cases line) auto
qed

text \<open>The three ways one turn of the loop of \<open>Next\<close> can go.\<close>

lemma next_loop_failed:
  "length (rb tr) = 0 \<and> rErr tr \<noteq> None \<Longrightarrow> next_loop tr = (False, stream_failed tr)"
  by (subst next_loop.simps) simp

lemma next_loop_again:
  assumes "\<not> (length (rb tr) = 0 \<and> rErr tr \<noteq> None)"
    and "tr1 = (if length (rb tr) = 0 then fill tr else tr)"
    and "IndexByte (rb tr1) newline = None"
  shows "next_loop tr = next_loop (tr1\<lparr>scratch := scratch tr1 @ rb tr1, rb := []\<rparr>)"
proof -
  have "next_loop tr =
    (let t = (if length (rb tr) = 0 then fill tr else tr) in
     case IndexByte (rb t) newline of
       Some n \<Rightarrow> (True, row_found n t)
     | None \<Rightarrow> next_loop (t\<lparr>scratch := scratch t @ rb t, rb := []\<rparr>))"
    using assms(1) by (subst next_loop.simps) auto
  then show ?thesis
    using assms(2,3) by (simp add: Let_def)
qed

lemma next_loop_found:
  assumes "\<not> (length (rb tr) = 0 \<and> rErr tr \<noteq> None)"
    and "tr1 = (if length (rb tr) = 0 then fill tr else tr)"
    and "IndexByte (rb tr1) newline = Some n"
  shows "next_loop tr = (True, row_found n tr1)"
proof -
  have "next_loop tr =
    (let t = (if length (rb tr) = 0 then fill tr else tr) in
     case IndexByte (rb t) newline of
       Some n \<Rightarrow> (True, row_found n t)
     | None \<Rightarrow> next_loop (t\<lparr>scratch := scratch t @ rb t, rb := []\<rparr>))"
    using assms(1) by (subst next_loop.simps) auto
  then show ?thesis
    using assms(2,3) by (simp add: Let_def)
qed

lemma next_loop_eof:
  "newline \<notin> set (pending tr) \<Longrightarrow>
   fst (next_loop tr) = False \<and>
   err (snd (next_loop tr)) =
     (if final_err tr \<noteq> EOF then Some (CannotReadRow (row tr) (final_err tr))
      else if scratch tr @ pending tr \<noteq> [] then Some (NoNewline (row tr) (scratch tr @ pending tr))
      else Some EOF)"
proof (induction tr rule: next_loop.induct)
  case (1 tr)
  show ?case
  proof (cases "length (rb tr) = 0 \<and> rErr tr \<noteq> None")
    case True
    then show ?thesis
      by (auto simp: next_loop_failed stream_failed_def pending_def final_err_def)
  next
    case False
    define tr1 where "tr1 = (if length (rb tr) = 0 then fill tr else tr)"
    have p1: "pending tr1 = pending tr" and f1: "final_err tr1 = final_err tr"
      using False by (auto simp: tr1_def pending_fill final_err_fill)
    have s1: "scratch tr1 = scratch tr" and r1: "row tr1 = row tr"
      by (auto simp: tr1_def fill_def split: list.splits)
    have "set (rb tr1) \<subseteq> set (pending tr1)"
      by (simp add: pending_def)
    then have nn: "IndexByte (rb tr1) newline = None"
      using "1.prems" p1 by (auto simp: IndexByte_None)
    define tr2 where "tr2 = tr1\<lparr>scratch := scratch tr1 @ rb tr1, rb := []\<rparr>"
    have step: "next_loop tr = next_loop tr2"
      unfolding tr2_def by (rule next_loop_again[OF False tr1_def nn])
    have p2: "rb tr1 @ pending tr2 = pending tr1"
      by (simp add: tr2_def pending_def)
    have IH: "fst (next_loop tr2) = False \<and>
       err (snd (next_loop tr2)) =
         (if final_err tr2 \<noteq> EOF then Some (CannotReadRow (row tr2) (final_err tr2))
          else if scratch tr2 @ pending tr2 \<noteq> [] then Some (NoNewline (row tr2) (scratch tr2 @ pending tr2))
          else Some EOF)"
      using "1.IH"[OF False tr1_def nn] "1.prems" p1 p2 unfolding tr2_def
      by (metis Un_iff set_append)
    have "final_err tr2 = final_err tr1" "row tr2 = row tr1"
      "scratch tr2 @ pending tr2 = scratch tr1 @ pending tr1"
      by (simp_all add: tr2_def final_err_def pending_def split: option.splits)
    then have "final_err tr2 = final_err tr" "row tr2 = row tr"
      "scratch tr2 @ pending tr2 = scratch tr @ pending tr"
      using f1 r1 s1 p1 by simp_all
    with IH step show ?thesis by simp
  qed
qed

lemma next_loop_row:
  "pending tr = line @ newline # rest \<Longrightarrow> newline \<notin> set line \<Longrightarrow>
   fst (next_loop tr) = True \<and>
   rowBuf (snd (next_loop tr)) = scratch tr @ line \<and>
   b (snd (next_loop tr)) = Some 0 \<and>
   scratch (snd (next_loop tr)) = [] \<and>
   pending (snd (next_loop tr)) = rest \<and>
   final_err (snd (next_loop tr)) = final_err tr \<and>
   err (snd (next_loop tr)) = err tr \<and>
   row (snd (next_loop tr)) = row tr \<and>
   col (snd (next_loop tr)) = col tr \<and>
   sep (snd (next_loop tr)) = sep tr"
proof (induction tr arbitrary: line rule: next_loop.induct)
  case (1 tr)
  have F: "\<not> (length (rb tr) = 0 \<and> rErr tr \<noteq> None)"
    using "1.prems"(1) by (auto simp: pending_def split: if_splits)
  define tr1 where "tr1 = (if length (rb tr) = 0 then fill tr else tr)"
  have p1: "pending tr1 = pending tr" and f1: "final_err tr1 = final_err tr"
    using F by (auto simp: tr1_def pending_fill final_err_fill)
  have k1: "scratch tr1 = scratch tr" "row tr1 = row tr" "col tr1 = col tr"
    "sep tr1 = sep tr" "err tr1 = err tr"
    by (auto simp: tr1_def fill_def split: list.splits)
  define tl1 where "tl1 = (if rErr tr1 = None then stream_bytes (r tr1) else [])"
  have pd: "rb tr1 @ tl1 = line @ newline # rest"
    using p1 "1.prems"(1) by (simp add: pending_def tl1_def)
  show ?case
  proof (cases "IndexByte (rb tr1) newline")
    case None
    define tr2 where "tr2 = tr1\<lparr>scratch := scratch tr1 @ rb tr1, rb := []\<rparr>"
    have step: "next_loop tr = next_loop tr2"
      unfolding tr2_def by (rule next_loop_again[OF F tr1_def None])
    from None have "newline \<notin> set (rb tr1)" by (simp add: IndexByte_None)
    from split_first[OF pd "1.prems"(2) this] obtain line'
      where l': "line = rb tr1 @ line'" "tl1 = line' @ newline # rest" by blast
    have "pending tr2 = tl1"
      by (simp add: tr2_def pending_def tl1_def)
    then have p2: "pending tr2 = line' @ newline # rest"
      using l'(2) by simp
    have n2: "newline \<notin> set line'" using "1.prems"(2) l'(1) by simp
    note IH = "1.IH"[OF F tr1_def None, folded tr2_def, OF p2 n2]
    have "final_err tr2 = final_err tr1" "row tr2 = row tr1" "col tr2 = col tr1"
      "sep tr2 = sep tr1" "err tr2 = err tr1" "scratch tr2 @ line' = scratch tr1 @ line"
      by (simp_all add: tr2_def final_err_def l'(1) split: option.splits)
    with IH step f1 k1 show ?thesis by simp
  next
    case (Some n)
    have step: "next_loop tr = (True, row_found n tr1)"
      by (rule next_loop_found[OF F tr1_def Some])
    from IndexByte_Some[OF Some]
    have d: "rb tr1 = take n (rb tr1) @ newline # drop (Suc n) (rb tr1)"
      and nn: "newline \<notin> set (take n (rb tr1))" by simp_all
    have "(take n (rb tr1)) @ newline # (drop (Suc n) (rb tr1) @ tl1) = line @ newline # rest"
      using pd d by (metis append.assoc append_Cons)
    then have e: "take n (rb tr1) = line" "drop (Suc n) (rb tr1) @ tl1 = rest"
      using nn "1.prems"(2) by (auto simp: append_eq_append_conv2 append_eq_Cons_conv Cons_eq_append_conv)
    have "pending (row_found n tr1) = drop (Suc n) (rb tr1) @ tl1"
      by (auto simp: row_found_def Let_def pending_def tl1_def)
    then have "pending (row_found n tr1) = rest"
      using e by simp
    moreover have "rowBuf (row_found n tr1) = scratch tr1 @ line" "b (row_found n tr1) = Some 0"
      "scratch (row_found n tr1) = []"
      "final_err (row_found n tr1) = final_err tr1" "err (row_found n tr1) = err tr1"
      "row (row_found n tr1) = row tr1" "col (row_found n tr1) = col tr1"
      "sep (row_found n tr1) = sep tr1"
      using e(1) by (simp_all add: row_found_def Let_def final_err_def split: option.splits)
    ultimately show ?thesis using step f1 k1 by simp
  qed
qed

lemma next_loop_eof_scratch:
  "newline \<notin> set (pending tr) \<Longrightarrow> scratch (snd (next_loop tr)) = scratch tr @ pending tr"
proof (induction tr rule: next_loop.induct)
  case (1 tr)
  show ?case
  proof (cases "length (rb tr) = 0 \<and> rErr tr \<noteq> None")
    case True
    then show ?thesis
      by (auto simp: next_loop_failed stream_failed_def pending_def)
  next
    case False
    define tr1 where "tr1 = (if length (rb tr) = 0 then fill tr else tr)"
    have p1: "pending tr1 = pending tr"
      using False by (auto simp: tr1_def pending_fill)
    have s1: "scratch tr1 = scratch tr"
      by (auto simp: tr1_def fill_def split: list.splits)
    have "set (rb tr1) \<subseteq> set (pending tr1)"
      by (simp add: pending_def)
    then have nn: "IndexByte (rb tr1) newline = None"
      using "1.prems" p1 by (auto simp: IndexByte_None)
    define tr2 where "tr2 = tr1\<lparr>scratch := scratch tr1 @ rb tr1, rb := []\<rparr>"
    have step: "next_loop tr = next_loop tr2"
      unfolding tr2_def by (rule next_loop_again[OF False tr1_def nn])
    have p2: "rb tr1 @ pending tr2 = pending tr1"
      by (simp add: tr2_def pending_def)
    then have "newline \<notin> set (pending tr2)"
      using "1.prems" p1 by (metis Un_iff set_append)
    from "1.IH"[OF False tr1_def nn, folded tr2_def, OF this]
    have "scratch (snd (next_loop tr2)) = scratch tr2 @ pending tr2" .
    moreover have "scratch tr2 @ pending tr2 = scratch tr1 @ pending tr1"
      by (simp add: tr2_def pending_def)
    ultimately show ?thesis using step p1 s1 by simp
  qed
qed

lemma next_loop_True:
  assumes "fst (next_loop tr)"
  shows "\<exists>line rest. pending tr = line @ newline # rest \<and> newline \<notin> set line"
proof -
  have "newline \<in> set (pending tr)"
    using assms next_loop_eof[of tr] by auto
  then show ?thesis
    by (meson split_list_first)
qed

section \<open>End of the stream\<close>

text \<open>
  Claim C4. When the stream ends (its final error is \<open>io.EOF\<close>) and no newline is
  left among the pending bytes, \<open>Next\<close> returns false and the overflow accumulator
  \<open>scratch\<close> holds every pending byte. If the accumulator is not empty (the input does
  not end in a newline) \<open>Error\<close> reports the truncated row; if it is empty (the stream
  ended at a newline boundary) the reader's error is \<open>io.EOF\<close> and \<open>Error\<close> returns
  no error.
\<close>

theorem Next_end_of_stream:
  assumes "err tr = None" and "\<not> HasCols tr"
    and "newline \<notin> set (pending tr)" and "final_err tr = EOF"
  shows "fst (Next tr) = False \<and>
         scratch (snd (Next tr)) = scratch tr @ pending tr \<and>
         (scratch (snd (Next tr)) \<noteq> [] \<longrightarrow>
            Error (snd (Next tr)) = Some (NoNewline (row tr + 1) (scratch (snd (Next tr))))) \<and>
         (scratch (snd (Next tr)) = [] \<longrightarrow>
            Error (snd (Next tr)) = None \<and> err (snd (Next tr)) = Some EOF)"
proof -
  define tr0 where "tr0 = tr\<lparr>row := row tr + 1, col := 0, rowBuf := []\<rparr>"
  have N: "Next tr = next_loop tr0"
    using assms(1,2) by (simp add: Next_def tr0_def)
  have p: "pending tr0 = pending tr" "final_err tr0 = final_err tr" "scratch tr0 = scratch tr"
    "row tr0 = row tr + 1"
    by (simp_all add: tr0_def pending_def final_err_def split: option.splits)
  have nl: "newline \<notin> set (pending tr0)" using assms(3) p by simp
  from next_loop_eof[OF nl] next_loop_eof_scratch[OF nl] p assms(4) N
  show ?thesis by (auto simp: Error_def)
qed

theorem Next_end_of_stream_witness:
  "fst (Next (NewCSV [(''abc'', None)])) = False \<and>
   Error (snd (Next (NewCSV [(''abc'', None)]))) = Some (NoNewline 1 ''abc'') \<and>
   fst (Next (NewCSV [])) = False \<and> Error (snd (Next (NewCSV []))) = None"
proof -
  have a: "err (NewCSV [(''abc'', None)]) = None" "\<not> HasCols (NewCSV [(''abc'', None)])"
    "newline \<notin> set (pending (NewCSV [(''abc'', None)]))" "final_err (NewCSV [(''abc'', None)]) = EOF"
    by (simp_all add: NewCSV_def NewCustom_def HasCols_def pending_def final_err_def newline_def)
  have c: "err (NewCSV []) = None" "\<not> HasCols (NewCSV [])"
    "newline \<notin> set (pending (NewCSV []))" "final_err (NewCSV []) = EOF"
    by (simp_all add: NewCSV_def NewCustom_def HasCols_def pending_def final_err_def newline_def)
  have s: "scratch (NewCSV [(''abc'', None)]) @ pending (NewCSV [(''abc'', None)]) = ''abc''"
     "scratch (NewCSV []) @ pending (NewCSV []) = []" "row (NewCSV [(''abc'', None)]) = 0"
    by (simp_all add: NewCSV_def NewCustom_def pending_def)
  from Next_end_of_stream[OF a] Next_end_of_stream[OF c] s
  show ?thesis by simp
qed

section \<open>Sticky errors\<close>

lemma failed_reader_err:
  "err failed_reader = Some (ColError ''cannot read `bytes`'' 0 0 [] (Errorf ''missing Next call''))"
  by (simp add: failed_reader_def Bytes_def NewCSV_def NewCustom_def nextCol_def setColError_def)

text \<open>
  Claim C5. Once the reader's error is set, \<open>Next\<close>, \<open>SkipCol\<close>, \<open>Bytes\<close>, \<open>String\<close>
  and every typed decoder return the zero value of their type and leave the reader, its
  error included, exactly as it was; \<open>ResetError\<close> clears the error.
\<close>

theorem sticky_error_noop:
  "err tr \<noteq> None \<Longrightarrow>
     Next tr = (False, tr) \<and> SkipCol tr = tr \<and> Bytes tr = (None, tr) \<and> String tr = ([], tr) \<and>
     Int' tr = (0, tr) \<and> Uint tr = (0, tr) \<and> Int32 tr = (0, tr) \<and> Uint32 tr = (0, tr) \<and>
     Int16 tr = (0, tr) \<and> Uint16 tr = (0, tr) \<and> Int8 tr = (0, tr) \<and> Uint8 tr = (0, tr) \<and>
     Int64 tr = (0, tr) \<and> Uint64 tr = (0, tr) \<and>
     Float32 parseFloat tr = (0, tr) \<and> Float64 parseFloat tr = (0, tr) \<and>
     Date tr = (zeroTime, tr) \<and> DateTime tr = (zeroTime, tr) \<and>
     err (ResetError tr) = None"
  by (simp add: Next_def SkipCol_def Bytes_def String_def Int'_def Uint_def Int32_def Uint32_def
      Int16_def Uint16_def Int8_def Uint8_def Int64_def Uint64_def Float32_def Float64_def
      Date_def DateTime_def ResetError_def)

theorem sticky_error_noop_witness:
  "err failed_reader \<noteq> None \<and>
   Next failed_reader = (False, failed_reader) \<and> SkipCol failed_reader = failed_reader \<and>
   Bytes failed_reader = (None, failed_reader) \<and> String failed_reader = ([], failed_reader) \<and>
   Uint8 failed_reader = (0, failed_reader) \<and>
   Float64 (\<lambda>n s. Inr (1 :: 64 word)) failed_reader = (0, failed_reader) \<and>
   DateTime failed_reader = (zeroTime, failed_reader)"
proof -
  have h: "err failed_reader \<noteq> None" by (simp add: failed_reader_err)
  from sticky_error_noop[OF h, of "\<lambda>n s. Inr (1 :: 64 word)"] h show ?thesis by simp
qed

section \<open>The column counter\<close>

text \<open>
  Claim C6, amended. Once a row has been read (\<open>row\<close> is not 0) every call of
  \<open>nextCol\<close> adds one to \<open>col\<close>, the failing call on an exhausted row included; before
  the first \<open>Next\<close> the call fails with "missing Next call" and leaves the reader, and so
  \<open>col\<close>, unchanged.
\<close>

theorem nextCol_col_counter:
  "(row tr \<noteq> 0 \<longrightarrow> col (snd (nextCol tr)) = col tr + 1) \<and>
   (row tr \<noteq> 0 \<and> b tr = None \<longrightarrow>
      nextCol tr = (Inl (Errorf ''no more columns''), tr\<lparr>col := col tr + 1\<rparr>)) \<and>
   (row tr = 0 \<longrightarrow> nextCol tr = (Inl (Errorf ''missing Next call''), tr))"
  by (simp add: nextCol_def Let_def split: option.splits)

text \<open>
  As stated, the claim counts the failing call before the first \<open>Next\<close> as well: on a new
  reader that call fails and \<open>col\<close> stays 0.
\<close>

theorem nextCol_before_Next_counterexample:
  "fst (nextCol (NewCSV [])) = Inl (Errorf ''missing Next call'') \<and>
   col (snd (nextCol (NewCSV []))) \<noteq> col (NewCSV []) + 1"
  by (simp add: nextCol_def NewCSV_def NewCustom_def)

theorem nextCol_col_counter_witness:
  "row (one_row ''a'') \<noteq> 0 \<and>
   col (snd (nextCol (one_row ''a''))) = col (one_row ''a'') + 1 \<and>
   row (snd (nextCol (one_row ''a''))) \<noteq> 0 \<and> b (snd (nextCol (one_row ''a''))) = None \<and>
   nextCol (snd (nextCol (one_row ''a''))) =
     (Inl (Errorf ''no more columns''),
      (snd (nextCol (one_row ''a'')))\<lparr>col := col (snd (nextCol (one_row ''a''))) + 1\<rparr>) \<and>
   row (NewCSV []) = 0 \<and>
   nextCol (NewCSV []) = (Inl (Errorf ''missing Next call''), NewCSV [])"
proof -
  have h1: "row (one_row ''a'') \<noteq> 0" by code_simp
  have h2: "row (snd (nextCol (one_row ''a''))) \<noteq> 0" by code_simp
  have h3: "b (snd (nextCol (one_row ''a''))) = None" by code_simp
  have h4: "row (NewCSV []) = 0" by code_simp
  from nextCol_col_counter[of "one_row ''a''"] nextCol_col_counter[of "snd (nextCol (one_row ''a''))"]
    nextCol_col_counter[of "NewCSV []"] h1 h2 h3 h4
  show ?thesis by simp
qed

section \<open>Dates\<close>

text \<open>
  What \<open>parseDate\<close> does reject: an input that is not 10 bytes long, and an input with
  a dash at neither offset 4 nor offset 7.
\<close>

lemma parseDate_length: "length s \<noteq> 10 \<Longrightarrow> parseDate s = Inl (Errorf ''too short date'')"
  by (simp add: parseDate_def)

lemma parseDate_no_dash:
  "length s = 10 \<Longrightarrow> s ! 4 \<noteq> CHR ''-'' \<Longrightarrow> s ! 7 \<noteq> CHR ''-'' \<Longrightarrow>
   parseDate s = Inl (Errorf ''invalid date format. Must be YYYY-MM-DD'')"
  by (simp add: parseDate_def)

text \<open>What it accepts: a dash at one of the two offsets is enough.\<close>

lemma parseDate_one_dash:
  assumes "length s = 10" and "s ! 4 = CHR ''-'' \<or> s ! 7 = CHR ''-''"
    and "Atoi (take 4 s) = Inr y" and "Atoi (take 2 (drop 5 s)) = Inr m"
    and "Atoi (drop 8 s) = Inr d"
  shows "parseDate s = Inr (y, m, d)"
  using assms by (auto simp: parseDate_def)

text \<open>
  Claim C7 says that an input with a byte other than a dash at offset 4 or at offset 7 is
  rejected. The test of \<open>parseDate\<close> joins the two comparisons with \<open>&&\<close>: one dash is
  enough, and \<open>2024X01-15\<close> decodes to the date 2024-01-15 without error.
\<close>

theorem parseDate_one_dash_accepted:
  "parseDate ''2024X01-15'' = Inr (2024, 1, 15) \<and>
   parseDate ''2024-01X15'' = Inr (2024, 1, 15) \<and>
   fst (Date (one_row ''2024X01-15'')) = time_Date 2024 1 15 0 0 0 \<and>
   err (snd (Date (one_row ''2024X01-15''))) = None"
  by code_simp

lemma parseDateTime_zero_date:
  assumes "length s = 19" and "parseDate (take 10 s) = Inr (0, 0, 0)"
  shows "(time_of_day_ok s \<longrightarrow> parseDateTime s = Inr zeroTime) \<and>
         (\<not> time_of_day_ok s \<longrightarrow> isl (parseDateTime s))"
  using assms
  by (auto simp: parseDateTime_def time_of_day_ok_def Let_def split: sum.splits)

text \<open>
  Claim C9, amended. For a 19-byte column whose date part parses to year 0, month 0 and
  day 0: if the time of day is well formed, \<open>DateTime\<close> returns the zero time without
  error, whatever hour, minute and second are; if it is not, \<open>DateTime\<close> returns the zero
  time and records a "cannot parse `datetime`" error.
\<close>

theorem DateTime_zero_date:
  assumes "err tr = None" and "nextCol tr = (Inr sl, tr1)"
    and "length (slice_bytes (rowBuf tr1) sl) = 19"
    and "parseDate (take 10 (slice_bytes (rowBuf tr1) sl)) = Inr (0, 0, 0)"
  shows "(time_of_day_ok (slice_bytes (rowBuf tr1) sl) \<longrightarrow> DateTime tr = (zeroTime, tr1)) \<and>
         (\<not> time_of_day_ok (slice_bytes (rowBuf tr1) sl) \<longrightarrow>
            fst (DateTime tr) = zeroTime \<and>
            (\<exists>cause. err (snd (DateTime tr)) =
               Some (ColError ''cannot parse `datetime`'' (row tr1) (col tr1) (rowBuf tr1) cause)))"
  using assms(1,2) parseDateTime_zero_date[OF assms(3,4)]
  by (auto simp: DateTime_def setColError_def split: sum.splits)

text \<open>
  As stated, the claim holds for any time of day: the column \<open>0000-00-00 1x:34:56\<close> has
  19 bytes and an all-zero date, and \<open>DateTime\<close> records an "invalid hour" error for it.
\<close>

theorem DateTime_zero_date_counterexample:
  "length ''0000-00-00 1x:34:56'' = 19 \<and>
   parseDate (take 10 ''0000-00-00 1x:34:56'') = Inr (0, 0, 0) \<and>
   parseDateTime ''0000-00-00 1x:34:56'' =
     Inl (Wrapped ''invalid hour'' (NumError ''Atoi'' ''1x'' ErrSyntax)) \<and>
   err (snd (DateTime (one_row ''0000-00-00 1x:34:56''))) =
     Some (ColError ''cannot parse `datetime`'' 1 1 ''0000-00-00 1x:34:56''
             (Wrapped ''invalid hour'' (NumError ''Atoi'' ''1x'' ErrSyntax)))"
  by code_simp

theorem DateTime_zero_date_witness:
  "DateTime (one_row ''0000-00-00 12:34:56'') =
     (zeroTime, snd (nextCol (one_row ''0000-00-00 12:34:56''))) \<and>
   err (snd (nextCol (one_row ''0000-00-00 12:34:56''))) = None \<and>
   fst (DateTime (one_row ''0000-00-00 12-34-56'')) = zeroTime \<and>
   (\<exists>cause. err (snd (DateTime (one_row ''0000-00-00 12-34-56''))) =
      Some (ColError ''cannot parse `datetime`'' 1 1 ''0000-00-00 12-34-56'' cause))"
proof -
  let ?a = "one_row ''0000-00-00 12:34:56''" and ?c = "one_row ''0000-00-00 12-34-56''"
  have e: "err ?a = None" "err ?c = None" by code_simp+
  have n: "nextCol ?a = (Inr (0, 19), snd (nextCol ?a))" "nextCol ?c = (Inr (0, 19), snd (nextCol ?c))"
    by code_simp+
  have s: "slice_bytes (rowBuf (snd (nextCol ?a))) (0, 19) = ''0000-00-00 12:34:56''"
    "slice_bytes (rowBuf (snd (nextCol ?c))) (0, 19) = ''0000-00-00 12-34-56''"
    by code_simp+
  have l: "length (slice_bytes (rowBuf (snd (nextCol ?a))) (0, 19)) = 19"
    "length (slice_bytes (rowBuf (snd (nextCol ?c))) (0, 19)) = 19"
    unfolding s by simp_all
  have d: "parseDate (take 10 (slice_bytes (rowBuf (snd (nextCol ?a))) (0, 19))) = Inr (0, 0, 0)"
    "parseDate (take 10 (slice_bytes (rowBuf (snd (nextCol ?c))) (0, 19))) = Inr (0, 0, 0)"
    unfolding s by code_simp+
  have t: "time_of_day_ok (slice_bytes (rowBuf (snd (nextCol ?a))) (0, 19))"
    "\<not> time_of_day_ok (slice_bytes (rowBuf (snd (nextCol ?c))) (0, 19))"
    unfolding s by code_simp+
  have v: "err (snd (nextCol ?a)) = None" "row (snd (nextCol ?c)) = 1" "col (snd (nextCol ?c)) = 1"
    "rowBuf (snd (nextCol ?c)) = ''0000-00-00 12-34-56''"
    by code_simp+
  from DateTime_zero_date[OF e(1) n(1) l(1) d(1)] t(1)
  have r1: "DateTime ?a = (zeroTime, snd (nextCol ?a))" by blast
  from DateTime_zero_date[OF e(2) n(2) l(2) d(2)] t(2)
  have r2: "fst (DateTime ?c) = zeroTime \<and>
            (\<exists>cause. err (snd (DateTime ?c)) =
               Some (ColError ''cannot parse `datetime`'' (row (snd (nextCol ?c)))
                 (col (snd (nextCol ?c))) (rowBuf (snd (nextCol ?c))) cause))" by blast
  show ?thesis using r1 r2 v by simp
qed

section \<open>The 8-bit unsigned decoder\<close>


lemma nextCol_frame:
  "nextCol tr = (res, tr1) \<Longrightarrow>
   row tr1 = row tr \<and> rowBuf tr1 = rowBuf tr \<and> err tr1 = err tr \<and> sep tr1 = sep tr \<and>
   needUnescape tr1 = needUnescape tr"
  by (auto simp: nextCol_def Let_def split: if_splits option.splits)


lemma Bytes_keeps_row:
  "\<not> needUnescape t \<Longrightarrow> rowBuf (snd (Bytes t)) = rowBuf t"
proof -
  obtain res t1 where nc: "nextCol t = (res, t1)" by (cases "nextCol t")
  note fr = nextCol_frame[OF nc]
  assume "\<not> needUnescape t"
  then show ?thesis
    using nc fr by (cases res) (simp_all add: Bytes_def setColError_def)
qed






section \<open>Empty rows\<close>

lemma Next_True:
  assumes "Next tr = (True, tr')"
  shows "err tr' = None \<and> b tr' = Some 0 \<and> row tr' = row tr + 1 \<and> col tr' = 0 \<and>
         sep tr' = sep tr \<and> scratch tr' = []"
proof -
  define tr0 where "tr0 = tr\<lparr>row := row tr + 1, col := 0, rowBuf := []\<rparr>"
  have e: "err tr = None" and N: "next_loop tr0 = (True, tr')"
    using assms by (auto simp: Next_def tr0_def split: if_splits)
  then have "fst (next_loop tr0)" by simp
  from next_loop_True[OF this] obtain line rest
    where "pending tr0 = line @ newline # rest" "newline \<notin> set line" by blast
  from next_loop_row[OF this] N e show ?thesis by (simp add: tr0_def)
qed

lemma next_loop_err:
  "err tr = None \<Longrightarrow> err (snd (next_loop tr)) \<noteq> Some (UnreadColumns n x y)"
proof (cases "newline \<in> set (pending tr)")
  case True
  then obtain line rest where "pending tr = line @ newline # rest" "newline \<notin> set line"
    by (meson split_list_first)
  from next_loop_row[OF this] show "err tr = None \<Longrightarrow> ?thesis" by simp
next
  case False
  from next_loop_eof[OF this] show ?thesis by (simp split: if_splits)
qed

text \<open>
  Claim C10. After \<open>Next\<close> has advanced to an empty row, \<open>HasCols\<close> is false and a
  following \<open>Next\<close> does not report unread columns; yet the first call of a column
  accessor succeeds with the empty column, and only the second fails with
  "no more columns".
\<close>

theorem empty_row:
  assumes "Next tr = (True, tr')" and "rowBuf tr' = []" and "0 \<le> row tr"
  shows "\<not> HasCols tr' \<and>
         (\<forall>n x y. err (snd (Next tr')) \<noteq> Some (UnreadColumns n x y)) \<and>
         nextCol tr' = (Inr (0, 0), tr'\<lparr>col := 1, b := None\<rparr>) \<and>
         Bytes tr' = (Some [], tr'\<lparr>col := 1, b := None\<rparr>) \<and>
         nextCol (tr'\<lparr>col := 1, b := None\<rparr>) =
           (Inl (Errorf ''no more columns''), tr'\<lparr>col := 2, b := None\<rparr>) \<and>
         Bytes (tr'\<lparr>col := 1, b := None\<rparr>) =
           (None, tr'\<lparr>col := 2, b := None,
                      err := Some (ColError ''cannot read `bytes`'' (row tr') 2 []
                                     (Errorf ''no more columns''))\<rparr>)"
proof -
  note T = Next_True[OF assms(1)]
  have r0: "row tr' \<noteq> 0" using T assms(3) by simp
  have h: "\<not> HasCols tr'" using assms(2) by (simp add: HasCols_def)
  have "Next tr' = next_loop (tr'\<lparr>row := row tr' + 1, col := 0, rowBuf := []\<rparr>)"
    using T h by (simp add: Next_def)
  moreover have "err (tr'\<lparr>row := row tr' + 1, col := 0, rowBuf := []\<rparr>) = None"
    using T by simp
  ultimately have u: "\<forall>n x y. err (snd (Next tr')) \<noteq> Some (UnreadColumns n x y)"
    using next_loop_err by simp
  have n1: "nextCol tr' = (Inr (0, 0), tr'\<lparr>col := 1, b := None\<rparr>)"
    using T r0 assms(2) by (simp add: nextCol_def Let_def)
  have b1: "Bytes tr' = (Some [], tr'\<lparr>col := 1, b := None\<rparr>)"
    using T n1 assms(2) by (simp add: Bytes_def slice_bytes_def)
  have n2: "nextCol (tr'\<lparr>col := 1, b := None\<rparr>) =
           (Inl (Errorf ''no more columns''), tr'\<lparr>col := 2, b := None\<rparr>)"
    using r0 by (simp add: nextCol_def Let_def)
  have b2: "Bytes (tr'\<lparr>col := 1, b := None\<rparr>) =
           (None, tr'\<lparr>col := 2, b := None,
                      err := Some (ColError ''cannot read `bytes`'' (row tr') 2 []
                                     (Errorf ''no more columns''))\<rparr>)"
    using T n2 assms(2) by (simp add: Bytes_def setColError_def)
  show ?thesis using h u n1 b1 n2 b2 by blast
qed

theorem empty_row_witness:
  "Next (NewCSV [([newline], None)]) = (True, one_row []) \<and> rowBuf (one_row []) = [] \<and>
   \<not> HasCols (one_row []) \<and>
   Bytes (one_row []) = (Some [], (one_row [])\<lparr>col := 1, b := None\<rparr>) \<and>
   fst (Bytes ((one_row [])\<lparr>col := 1, b := None\<rparr>)) = None \<and>
   err (snd (Bytes ((one_row [])\<lparr>col := 1, b := None\<rparr>))) =
     Some (ColError ''cannot read `bytes`'' 1 2 [] (Errorf ''no more columns''))"
proof -
  have a: "Next (NewCSV [([newline], None)]) = (True, one_row [])" by code_simp
  have c: "rowBuf (one_row []) = []" by code_simp
  have d: "0 \<le> row (NewCSV [([newline], None)])" by code_simp
  have e: "row (one_row []) = 1" by code_simp
  from empty_row[OF a c d] a c e show ?thesis by simp
qed

section \<open>Reading rows and columns back\<close>

lemma stream_bytes_chunked: "stream_bytes (chunked chunks) = concat chunks"
  by (induction chunks) (auto simp: chunked_def)

lemma stream_err_chunked: "stream_err (chunked chunks) = EOF"
  by (induction chunks) (auto simp: chunked_def)

lemma join_no_newline:
  "sp \<noteq> newline \<Longrightarrow> \<forall>c\<in>set cs. newline \<notin> set c \<Longrightarrow> newline \<notin> set (join sp cs)"
  by (induction sp cs rule: join.induct) auto

text \<open>The state after nextCol on a column that is followed by a separator, and on the last one.\<close>

lemma nextCol_sep:
  assumes "row tr \<noteq> 0" "b tr = Some off" "drop off (rowBuf tr) = c @ sep tr # rest" "sep tr \<notin> set c"
  shows "nextCol tr = (Inr (off, length c), tr\<lparr>col := col tr + 1, b := Some (off + length c + 1)\<rparr>)"
  using assms by (simp add: nextCol_def Let_def IndexByte_first)

lemma nextCol_last:
  assumes "row tr \<noteq> 0" "b tr = Some off" "sep tr \<notin> set (drop off (rowBuf tr))"
  shows "nextCol tr = (Inr (off, length (rowBuf tr) - off), tr\<lparr>col := col tr + 1, b := None\<rparr>)"
proof -
  have "IndexByte (drop off (rowBuf tr)) (sep tr) = None"
    using assms(3) by (simp add: IndexByte_None)
  then show ?thesis using assms(1,2) by (simp add: nextCol_def Let_def)
qed

text \<open>Bytes on a column without the escape marker returns the column and writes nothing.\<close>

lemma Bytes_plain:
  assumes "err tr = None" "nextCol tr = (Inr sl, tr1)" "backslash \<notin> set (slice_bytes (rowBuf tr1) sl)"
  shows "Bytes tr = (Some (slice_bytes (rowBuf tr1) sl), tr1)"
proof -
  have "IndexByte (slice_bytes (rowBuf tr1) sl) backslash = None"
    using assms(3) by (simp add: IndexByte_None)
  then show ?thesis using assms(1,2) by (simp add: Bytes_def)
qed

lemma read_cols_Bytes_row:
  assumes "err tr = None" "row tr \<noteq> 0" "b tr = Some off"
    and "drop off (rowBuf tr) = join (sep tr) cs" "cs \<noteq> []"
    and "\<forall>c\<in>set cs. sep tr \<notin> set c \<and> backslash \<notin> set c"
  shows "read_cols Bytes (length cs) tr =
           (map Some cs, tr\<lparr>col := col tr + int (length cs), b := None\<rparr>)"
  using assms
proof (induction cs arbitrary: tr off)
  case Nil
  then show ?case by simp
next
  case (Cons c cs)
  show ?case
  proof (cases cs)
    case Nil
    have d: "drop off (rowBuf tr) = c" using Cons.prems(4) Nil by simp
    then have "sep tr \<notin> set (drop off (rowBuf tr))" using Cons.prems(6) by simp
    from nextCol_last[OF Cons.prems(2,3) this]
    have n: "nextCol tr = (Inr (off, length (rowBuf tr) - off), tr\<lparr>col := col tr + 1, b := None\<rparr>)" .
    have "slice_bytes (rowBuf (tr\<lparr>col := col tr + 1, b := None\<rparr>)) (off, length (rowBuf tr) - off)
            = drop off (rowBuf tr)"
      by (simp add: slice_bytes_def)
    then have sl: "slice_bytes (rowBuf (tr\<lparr>col := col tr + 1, b := None\<rparr>))
                     (off, length (rowBuf tr) - off) = c"
      using d by simp
    have "backslash \<notin> set c" using Cons.prems(6) by simp
    with Bytes_plain[OF Cons.prems(1) n] sl
    have "Bytes tr = (Some c, tr\<lparr>col := col tr + 1, b := None\<rparr>)" by simp
    then show ?thesis using Nil by simp
  next
    case (Cons c' cs')
    let ?tr1 = "tr\<lparr>col := col tr + 1, b := Some (off + length c + 1)\<rparr>"
    have d: "drop off (rowBuf tr) = c @ sep tr # join (sep tr) cs"
      using Cons.prems(4) Cons by simp
    have ns: "sep tr \<notin> set c" and nb: "backslash \<notin> set c" using Cons.prems(6) by simp_all
    from nextCol_sep[OF Cons.prems(2,3) d ns]
    have n: "nextCol tr = (Inr (off, length c), ?tr1)" .
    have sl: "slice_bytes (rowBuf ?tr1) (off, length c) = c"
      using d by (simp add: slice_bytes_def)
    from Bytes_plain[OF Cons.prems(1) n] sl nb
    have B: "Bytes tr = (Some c, ?tr1)" by simp
    have "drop (length c + 1) (drop off (rowBuf tr)) = join (sep tr) cs"
      using d by simp
    then have d1: "drop (off + length c + 1) (rowBuf ?tr1) = join (sep ?tr1) cs"
      by (simp add: add.commute add.left_commute)
    have IH: "read_cols Bytes (length cs) ?tr1 =
           (map Some cs, ?tr1\<lparr>col := col ?tr1 + int (length cs), b := None\<rparr>)"
      by (rule Cons.IH[OF _ _ _ d1]) (use Cons.prems Cons in simp_all)
    show ?thesis using B IH by (simp add: add.assoc)
  qed
qed

lemma read_cols_Bytes_after_Next:
  assumes "err tr = None" "row tr \<noteq> 0" "b tr = Some 0" "rowBuf tr = join (sep tr) cs"
    and "\<forall>c\<in>set cs. sep tr \<notin> set c \<and> backslash \<notin> set c"
  shows "\<exists>tr'. read_cols Bytes (length cs) tr = (map Some cs, tr') \<and> \<not> HasCols tr' \<and>
           err tr' = None \<and> row tr' = row tr \<and> sep tr' = sep tr \<and> scratch tr' = scratch tr \<and>
           pending tr' = pending tr \<and> final_err tr' = final_err tr"
proof (cases cs)
  case Nil
  then show ?thesis using assms by (simp add: HasCols_def)
next
  case (Cons c cs')
  have "drop 0 (rowBuf tr) = join (sep tr) cs" using assms(4) by simp
  from read_cols_Bytes_row[OF assms(1,2,3) this _ assms(5)] Cons
  have "read_cols Bytes (length cs) tr =
           (map Some cs, tr\<lparr>col := col tr + int (length cs), b := None\<rparr>)" by simp
  then show ?thesis using assms(1)
    by (simp add: HasCols_def pending_def final_err_def split: option.splits)
qed

lemma read_rows_Bytes:
  assumes "sp \<noteq> newline"
    and "\<forall>cs\<in>set rows. \<forall>c\<in>set cs. sp \<notin> set c \<and> newline \<notin> set c \<and> backslash \<notin> set c"
    and "err tr = None" "\<not> HasCols tr" "scratch tr = []"
    and "pending tr = encode_rows sp rows @ rest" "sep tr = sp" "0 \<le> row tr"
  shows "\<exists>tr'. read_rows Bytes (map length rows) tr = (map (map Some) rows, tr') \<and>
           err tr' = None \<and> \<not> HasCols tr' \<and> scratch tr' = [] \<and> pending tr' = rest \<and>
           final_err tr' = final_err tr \<and> sep tr' = sp \<and> row tr' = row tr + int (length rows)"
  using assms
proof (induction rows arbitrary: tr)
  case Nil
  then show ?case by (simp add: encode_rows_def)
next
  case (Cons cs rows)
  define tr0 where "tr0 = tr\<lparr>row := row tr + 1, col := 0, rowBuf := []\<rparr>"
  have N: "Next tr = next_loop tr0"
    using Cons.prems(3,4) by (simp add: Next_def tr0_def)
  have "pending tr0 = pending tr"
    by (simp add: tr0_def pending_def)
  then have p0: "pending tr0 = join sp cs @ newline # (encode_rows sp rows @ rest)"
    using Cons.prems(6) by (simp add: encode_rows_def)
  have nl: "newline \<notin> set (join sp cs)"
    using Cons.prems(1,2) by (intro join_no_newline) auto
  define tr1 where "tr1 = snd (next_loop tr0)"
  from next_loop_row[OF p0 nl]
  have L: "next_loop tr0 = (True, tr1)" "rowBuf tr1 = join sp cs" "b tr1 = Some 0"
    "scratch tr1 = []" "pending tr1 = encode_rows sp rows @ rest" "final_err tr1 = final_err tr"
    "err tr1 = None" "row tr1 = row tr + 1" "sep tr1 = sp"
    using Cons.prems(3,5,7)
    by (auto simp: tr1_def tr0_def final_err_def prod_eq_iff split: option.splits)
  have r1: "row tr1 \<noteq> 0" using L(8) Cons.prems(8) by simp
  have cols: "\<forall>c\<in>set cs. sep tr1 \<notin> set c \<and> backslash \<notin> set c"
    using Cons.prems(2) L(9) by simp
  have rb1: "rowBuf tr1 = join (sep tr1) cs" using L(2,9) by simp
  from read_cols_Bytes_after_Next[OF L(7) r1 L(3) rb1 cols] obtain tr2
    where C: "read_cols Bytes (length cs) tr1 = (map Some cs, tr2)" "\<not> HasCols tr2"
      "err tr2 = None" "row tr2 = row tr1" "sep tr2 = sep tr1" "scratch tr2 = scratch tr1"
      "pending tr2 = pending tr1" "final_err tr2 = final_err tr1"
    by blast
  have "\<exists>tr'. read_rows Bytes (map length rows) tr2 = (map (map Some) rows, tr') \<and>
           err tr' = None \<and> \<not> HasCols tr' \<and> scratch tr' = [] \<and> pending tr' = rest \<and>
           final_err tr' = final_err tr2 \<and> sep tr' = sp \<and> row tr' = row tr2 + int (length rows)"
    by (rule Cons.IH) (use Cons.prems C L in simp_all)
  then obtain tr' where R: "read_rows Bytes (map length rows) tr2 = (map (map Some) rows, tr')"
    "err tr' = None" "\<not> HasCols tr'" "scratch tr' = []" "pending tr' = rest"
    "final_err tr' = final_err tr2" "sep tr' = sp" "row tr' = row tr2 + int (length rows)"
    by blast
  have "read_rows Bytes (map length (cs # rows)) tr = (map (map Some) (cs # rows), tr')"
    using N L(1) C(1) R(1) by simp
  moreover have "final_err tr' = final_err tr" "row tr' = row tr + int (length (cs # rows))"
    using R(6,8) C(4,8) L(6,8) by simp_all
  ultimately show ?case using R(2-5,7) by blast
qed

lemma read_cols_String:
  "read_cols String n tr =
     (map (\<lambda>v. case v of None \<Rightarrow> [] | Some x \<Rightarrow> x) (fst (read_cols Bytes n tr)),
      snd (read_cols Bytes n tr))"
  by (induction n arbitrary: tr) (auto simp: String_def split: prod.splits option.splits)

lemma read_rows_String:
  "read_rows String ns tr =
     (map (map (\<lambda>v. case v of None \<Rightarrow> [] | Some x \<Rightarrow> x)) (fst (read_rows Bytes ns tr)),
      snd (read_rows Bytes ns tr))"
  by (induction ns arbitrary: tr) (auto simp: read_cols_String split: prod.splits bool.splits)

lemma set_col_join: "c \<in> set cs \<Longrightarrow> set c \<subseteq> set (join sp cs)"
  by (induction sp cs rule: join.induct) auto

lemma set_join_encode: "cs \<in> set rows \<Longrightarrow> set (join sp cs) \<subseteq> set (encode_rows sp rows)"
  by (auto simp: encode_rows_def)

lemma Next_at_eof:
  assumes "err tr = None" "\<not> HasCols tr" "newline \<notin> set (pending tr)" "final_err tr = EOF"
  shows "fst (Next tr) = False \<and>
         Error (snd (Next tr)) =
           (if scratch tr @ pending tr = [] then None
            else Some (NoNewline (row tr + 1) (scratch tr @ pending tr)))"
proof -
  define tr0 where "tr0 = tr\<lparr>row := row tr + 1, col := 0, rowBuf := []\<rparr>"
  have N: "Next tr = next_loop tr0"
    using assms(1,2) by (simp add: Next_def tr0_def)
  have p: "pending tr0 = pending tr" "final_err tr0 = EOF" "scratch tr0 = scratch tr"
    "row tr0 = row tr + 1"
    using assms(4) by (simp_all add: tr0_def pending_def final_err_def split: option.splits)
  then have "newline \<notin> set (pending tr0)" using assms(3) by simp
  from next_loop_eof[OF this] p N show ?thesis by (simp add: Error_def)
qed

text \<open>
  Claim C2. Take rows of columns that hold neither the separator nor a newline, encoded
  with the separator between the columns and a newline after every row, such that the
  escape marker does not occur in the input, and let the stream deliver exactly these
  bytes and then \<open>io.EOF\<close>, cut into reads in any way. Then calling \<open>Next\<close> for every
  row and \<open>Bytes\<close> for every column returns exactly the bytes of each column, in order,
  and so does \<open>String\<close>; no error is left, and the next \<open>Next\<close> returns false with no
  error.
\<close>

theorem round_trip:
  assumes "sp \<noteq> newline"
    and "\<forall>cs\<in>set rows. \<forall>c\<in>set cs. sp \<notin> set c \<and> newline \<notin> set c"
    and "backslash \<notin> set (encode_rows sp rows)"
    and "stream_bytes rs = encode_rows sp rows" and "stream_err rs = EOF"
  shows "fst (read_rows Bytes (map length rows) (NewCustom sp rs)) = map (map Some) rows \<and>
         fst (read_rows String (map length rows) (NewCustom sp rs)) = rows \<and>
         err (snd (read_rows Bytes (map length rows) (NewCustom sp rs))) = None \<and>
         fst (Next (snd (read_rows Bytes (map length rows) (NewCustom sp rs)))) = False \<and>
         Error (snd (Next (snd (read_rows Bytes (map length rows) (NewCustom sp rs))))) = None"
proof -
  let ?tr = "NewCustom sp rs"
  have cols: "\<forall>cs\<in>set rows. \<forall>c\<in>set cs. sp \<notin> set c \<and> newline \<notin> set c \<and> backslash \<notin> set c"
    using assms(2,3) set_col_join set_join_encode by blast
  have i: "err ?tr = None" "\<not> HasCols ?tr" "scratch ?tr = []" "sep ?tr = sp" "0 \<le> row ?tr"
    by (simp_all add: NewCustom_def HasCols_def)
  have p: "pending ?tr = encode_rows sp rows @ []"
    using assms(4) by (simp add: NewCustom_def pending_def)
  have f: "final_err ?tr = EOF"
    using assms(5) by (simp add: NewCustom_def final_err_def)
  from read_rows_Bytes[OF assms(1) cols i(1,2,3) p i(4,5)] f obtain tr'
    where R: "read_rows Bytes (map length rows) ?tr = (map (map Some) rows, tr')"
      "err tr' = None" "\<not> HasCols tr'" "scratch tr' = []" "pending tr' = []" "final_err tr' = EOF"
    by auto
  have S: "fst (read_rows String (map length rows) ?tr) = rows"
    by (simp add: read_rows_String R(1) comp_def)
  have "newline \<notin> set (pending tr')" using R(5) by simp
  from Next_at_eof[OF R(2,3) this R(6)] R(1,2,4,5) S show ?thesis by simp
qed

theorem round_trip_witness:
  "fst (read_rows Bytes [2, 2]
          (NewCustom (CHR '','') (chunked [''ab,'', ''c'' @ [newline] @ '',d'', [newline]])))
     = [[Some ''ab'', Some ''c''], [Some [], Some ''d'']] \<and>
   fst (read_rows String [2, 2]
          (NewCustom (CHR '','') (chunked [''ab,'', ''c'' @ [newline] @ '',d'', [newline]])))
     = [[''ab'', ''c''], [[], ''d'']]"
proof -
  let ?rows = "[[''ab'', ''c''], [[], ''d'']]"
  let ?chunks = "[''ab,'', ''c'' @ [newline] @ '',d'', [newline]]"
  have h1: "CHR '','' \<noteq> newline" by (simp add: newline_def)
  have h2: "\<forall>cs\<in>set ?rows. \<forall>c\<in>set cs. CHR '','' \<notin> set c \<and> newline \<notin> set c"
    by (simp add: newline_def)
  have h3: "backslash \<notin> set (encode_rows (CHR '','') ?rows)"
    by (simp add: encode_rows_def backslash_def newline_def)
  have h4: "stream_bytes (chunked ?chunks) = encode_rows (CHR '','') ?rows"
    by (simp add: stream_bytes_chunked encode_rows_def)
  have h5: "stream_err (chunked ?chunks) = EOF"
    by (rule stream_err_chunked)
  have m: "map length ?rows = [2, 2]"
    "map (map Some) ?rows = [[Some ''ab'', Some ''c''], [Some [], Some ''d'']]"
    by simp_all
  note R = round_trip[OF h1 h2 h3 h4 h5, unfolded m]
  show ?thesis
    by (rule conjI[OF conjunct1[OF R] conjunct1[OF conjunct2[OF R]]])
qed

text \<open>
  The same reading on an input whose last row may lack its newline: after the complete
  rows, \<open>Next\<close> returns false, and \<open>Error\<close> reports the truncated row with its index
  and bytes unless nothing follows the last newline.
\<close>

lemma truncated_input:
  assumes "sp \<noteq> newline"
    and "\<forall>cs\<in>set rows. \<forall>c\<in>set cs. sp \<notin> set c \<and> newline \<notin> set c \<and> backslash \<notin> set c"
    and "stream_bytes rs = encode_rows sp rows @ part" and "newline \<notin> set part"
    and "stream_err rs = EOF"
  shows "fst (read_rows Bytes (map length rows) (NewCustom sp rs)) = map (map Some) rows \<and>
         fst (Next (snd (read_rows Bytes (map length rows) (NewCustom sp rs)))) = False \<and>
         Error (snd (Next (snd (read_rows Bytes (map length rows) (NewCustom sp rs))))) =
           (if part = [] then None else Some (NoNewline (int (length rows) + 1) part))"
proof -
  let ?tr = "NewCustom sp rs"
  have i: "err ?tr = None" "\<not> HasCols ?tr" "scratch ?tr = []" "sep ?tr = sp" "0 \<le> row ?tr"
    "row ?tr = 0"
    by (simp_all add: NewCustom_def HasCols_def)
  have p: "pending ?tr = encode_rows sp rows @ part"
    using assms(3) by (simp add: NewCustom_def pending_def)
  have f: "final_err ?tr = EOF"
    using assms(5) by (simp add: NewCustom_def final_err_def)
  from read_rows_Bytes[OF assms(1,2) i(1,2,3) p i(4,5)] f i(6) obtain tr'
    where R: "read_rows Bytes (map length rows) ?tr = (map (map Some) rows, tr')"
      "err tr' = None" "\<not> HasCols tr'" "scratch tr' = []" "pending tr' = part" "final_err tr' = EOF"
      "row tr' = int (length rows)"
    by auto
  have "newline \<notin> set (pending tr')" using R(5) assms(4) by simp
  from Next_at_eof[OF R(2,3) this R(6)] R(1,4,5,7) show ?thesis by simp
qed

section \<open>Unescaping in place\<close>

lemma unescape_byte_decoded: "unescape_byte c = decoded c"
  by (simp add: unescape_byte_def decoded_def escape_table_def quote_def backslash_def)

lemma unescaped_marker: "unescaped (backslash # xs) = after_marker backslash xs"
  by (cases xs) (simp_all add: backslash_def)

lemma unescaped_plain: "backslash \<notin> set xs \<Longrightarrow> unescaped xs = xs"
  by (induction xs rule: unescaped.induct) (auto simp: backslash_def)

lemma unescaped_prefix:
  "backslash \<notin> set pre \<Longrightarrow> unescaped (pre @ backslash # xs) = pre @ after_marker backslash xs"
proof (induction pre)
  case Nil
  then show ?case by (simp add: unescaped_marker)
next
  case (Cons a pre)
  then have "a \<noteq> CHR 0x5C" by (auto simp: backslash_def)
  moreover obtain y ys where "pre @ backslash # xs = y # ys" by (cases pre) auto
  ultimately show ?case using Cons by simp
qed

text \<open>
  The loop on the array, cut into the bytes \<open>A\<close> of \<open>d\<close> before its last byte \<open>m\<close>
  (the marker just copied), the bytes \<open>G\<close> between the end of \<open>d\<close> and the start of
  \<open>b\<close>, the bytes \<open>B\<close> of \<open>b\<close>, and the rest \<open>Z\<close> of the array behind the column:
  the loop leaves the decoding of \<open>B\<close> behind \<open>A\<close> and does not touch \<open>Z\<close>.
\<close>

lemma unescape_loop_step:
  assumes "ce - bs > 0" and "buf1 = buf[de - 1 := unescape_byte (buf ! bs)]"
  shows "unescape_loop buf de bs ce =
     (case IndexByte (take (ce - (bs + 1)) (drop (bs + 1) buf1)) backslash of
        None \<Rightarrow> (copy_within buf1 de (bs + 1) (ce - (bs + 1)), de + (ce - (bs + 1)))
      | Some n \<Rightarrow>
          unescape_loop (copy_within buf1 de (bs + 1) (n + 1)) (de + (n + 1)) (bs + 1 + (n + 1)) ce)"
  using assms by (subst unescape_loop.simps) (auto simp: Let_def split: option.splits)

lemma drop_append_le: "n \<le> length xs \<Longrightarrow> drop n (xs @ ys) = drop n xs @ ys"
  by simp

lemma unescape_loop_concat:
  "\<exists>G'. unescape_loop (A @ m # G @ B @ Z) (Suc (length A)) (Suc (length A) + length G)
           (Suc (length A) + length G + length B)
         = (A @ after_marker m B @ G' @ Z, length A + length (after_marker m B))"
proof (induction "length B" arbitrary: A m G B rule: less_induct)
  case less
  show ?case
  proof (cases B)
    case Nil
    have "unescape_loop (A @ m # G @ B @ Z) (Suc (length A)) (Suc (length A) + length G)
           (Suc (length A) + length G + length B) = (A @ m # G @ B @ Z, Suc (length A))"
      using Nil by (subst unescape_loop.simps) simp
    then show ?thesis using Nil by (intro exI[of _ G]) simp
  next
    case (Cons c rest)
    let ?buf = "A @ m # G @ B @ Z"
    let ?de = "Suc (length A)" and ?bs = "Suc (length A) + length G"
    let ?ce = "Suc (length A) + length G + length B"
    let ?buf1 = "A @ decoded c # G @ c # rest @ Z"
    have c: "?buf ! ?bs = c"
      using Cons by (simp add: nth_append)
    have b1: "?buf[?de - 1 := unescape_byte (?buf ! ?bs)] = ?buf1"
      unfolding c using Cons by (simp add: unescape_byte_decoded list_update_append)
    have dr: "drop (?bs + 1) ?buf1 = rest @ Z"
    proof -
      have "?buf1 = (A @ decoded c # G @ [c]) @ rest @ Z" by simp
      moreover have "length (A @ decoded c # G @ [c]) = ?bs + 1" by simp
      ultimately show ?thesis
        by (metis append_eq_conv_conj)
    qed
    have r1: "take (?ce - (?bs + 1)) (drop (?bs + 1) ?buf1) = rest"
      unfolding dr using Cons by simp
    have pos: "?ce - ?bs > 0" using Cons by simp
    show ?thesis
    proof (cases "IndexByte rest backslash")
      case None
      then have nb: "backslash \<notin> set rest" by (simp add: IndexByte_None)
      have step: "unescape_loop ?buf ?de ?bs ?ce =
                  (copy_within ?buf1 ?de (?bs + 1) (?ce - (?bs + 1)), ?de + (?ce - (?bs + 1)))"
        using unescape_loop_step[OF pos b1[symmetric]] unfolding r1 None by simp
      have len: "?ce - (?bs + 1) = length rest" using Cons by simp
      have t1: "take ?de ?buf1 = A @ [decoded c]" by simp
      have t2: "take (length rest) (drop (?bs + 1) ?buf1) = rest" using r1 len by simp
      have "drop (?de + length rest) ?buf1 = drop (length rest) (G @ c # rest @ Z)"
        by (simp add: drop_Cons')
      also have "\<dots> = drop (length rest) ((G @ [c] @ rest) @ Z)" by simp
      also have "\<dots> = drop (length rest) (G @ [c] @ rest) @ Z"
        by (rule drop_append_le) simp
      finally have t3: "drop (?de + length rest) ?buf1 = drop (length rest) (G @ [c] @ rest) @ Z" .
      have "copy_within ?buf1 ?de (?bs + 1) (length rest)
            = A @ (decoded c # rest) @ drop (length rest) (G @ [c] @ rest) @ Z"
        unfolding copy_within_def t1 t2 t3 by simp
      moreover have "after_marker m B = decoded c # rest"
        using Cons nb by (simp add: unescaped_plain)
      ultimately show ?thesis
        unfolding step len by (intro exI[of _ "drop (length rest) (G @ [c] @ rest)"]) simp
    next
      case (Some n)
      from IndexByte_Some[OF Some]
      have d: "rest = take n rest @ backslash # drop (Suc n) rest"
        and np: "backslash \<notin> set (take n rest)" and nl: "n < length rest" by simp_all
      define pre where "pre = take n rest"
      define rest2 where "rest2 = drop (Suc n) rest"
      have rest: "rest = pre @ backslash # rest2" and lp: "length pre = n"
        using d nl by (simp_all add: pre_def rest2_def)
      have np': "backslash \<notin> set pre" using np by (simp add: pre_def)
      define G2 where "G2 = drop (n + 1) (G @ c # pre @ [backslash])"
      have lG2: "length G2 = length G + 1" by (simp add: G2_def lp)
      let ?buf2 = "(A @ decoded c # pre) @ backslash # G2 @ rest2 @ Z"
      have step: "unescape_loop ?buf ?de ?bs ?ce =
                  unescape_loop (copy_within ?buf1 ?de (?bs + 1) (n + 1)) (?de + (n + 1))
                    (?bs + 1 + (n + 1)) ?ce"
        using unescape_loop_step[OF pos b1[symmetric]] unfolding r1 Some by simp
      have t1: "take ?de ?buf1 = A @ [decoded c]" by simp
      have "take (n + 1) ((pre @ backslash # rest2) @ Z) = pre @ [backslash]"
        by (simp add: lp)
      then have t2: "take (n + 1) (drop (?bs + 1) ?buf1) = pre @ [backslash]"
        unfolding dr using rest by simp
      have "drop (?de + (n + 1)) ?buf1 = drop (n + 1) (G @ c # rest @ Z)"
        by (simp add: drop_Cons')
      also have "\<dots> = drop (n + 1) ((G @ c # pre @ [backslash]) @ rest2 @ Z)"
        using rest by simp
      also have "\<dots> = G2 @ rest2 @ Z"
        unfolding G2_def by (rule drop_append_le) (simp add: lp)
      finally have t3: "drop (?de + (n + 1)) ?buf1 = G2 @ rest2 @ Z" .
      have cw: "copy_within ?buf1 ?de (?bs + 1) (n + 1) = ?buf2"
        unfolding copy_within_def t1 t2 t3 by simp
      have i1: "?de + (n + 1) = Suc (length (A @ decoded c # pre))" by (simp add: lp)
      have i2: "?bs + 1 + (n + 1) = Suc (length (A @ decoded c # pre)) + length G2"
        by (simp add: lp lG2)
      have i3: "?ce = Suc (length (A @ decoded c # pre)) + length G2 + length rest2"
        using Cons rest by (simp add: lp lG2)
      have sm: "length rest2 < length B" using Cons rest by simp
      from less[OF sm, of "A @ decoded c # pre" backslash G2] obtain G' where
        IH: "unescape_loop ?buf2 (Suc (length (A @ decoded c # pre)))
               (Suc (length (A @ decoded c # pre)) + length G2)
               (Suc (length (A @ decoded c # pre)) + length G2 + length rest2)
             = ((A @ decoded c # pre) @ after_marker backslash rest2 @ G' @ Z,
                length (A @ decoded c # pre) + length (after_marker backslash rest2))"
        by blast
      have am: "after_marker m B = decoded c # pre @ after_marker backslash rest2"
        using Cons rest np' by (simp add: unescaped_prefix)
      have "unescape_loop ?buf ?de ?bs ?ce =
             ((A @ decoded c # pre) @ after_marker backslash rest2 @ G' @ Z,
                length (A @ decoded c # pre) + length (after_marker backslash rest2))"
        unfolding step cw using IH i1 i2 i3 by metis
      then show ?thesis
        unfolding am by (intro exI[of _ G']) simp
    qed
  qed
qed

lemma copy_within_length:
  "dst + n \<le> length buf \<Longrightarrow> src + n \<le> length buf \<Longrightarrow> length (copy_within buf dst src n) = length buf"
  by (simp add: copy_within_def)

lemma unescape_loop_length:
  "de \<le> bs \<Longrightarrow> ce \<le> length buf \<Longrightarrow> length (fst (unescape_loop buf de bs ce)) = length buf"
proof (induction buf de bs ce rule: unescape_loop.induct)
  case (1 buf de bs ce)
  show ?case
  proof (cases "ce - bs > 0")
    case False
    then show ?thesis by (subst unescape_loop.simps) simp
  next
    case True
    define buf1 where "buf1 = buf[de - 1 := unescape_byte (buf ! bs)]"
    have l1: "length buf1 = length buf" by (simp add: buf1_def)
    note S = unescape_loop_step[OF True buf1_def]
    show ?thesis
    proof (cases "IndexByte (take (ce - (bs + 1)) (drop (bs + 1) buf1)) backslash")
      case None
      then have "fst (unescape_loop buf de bs ce) = copy_within buf1 de (bs + 1) (ce - (bs + 1))"
        using S by simp
      then show ?thesis
        using "1.prems" True l1 by (simp add: copy_within_length)
    next
      case (Some n)
      have nl: "n < ce - (bs + 1)"
        using IndexByte_Some[OF Some] l1 "1.prems" by simp
      have e: "unescape_loop buf de bs ce =
               unescape_loop (copy_within buf1 de (bs + 1) (n + 1)) (de + (n + 1)) (bs + 1 + (n + 1)) ce"
        using S Some by simp
      have lc: "length (copy_within buf1 de (bs + 1) (n + 1)) = length buf"
        using nl "1.prems" l1 by (simp add: copy_within_length)
      have "length (fst (unescape_loop (copy_within buf1 de (bs + 1) (n + 1)) (de + (n + 1))
                      (bs + 1 + (n + 1)) ce)) = length (copy_within buf1 de (bs + 1) (n + 1))"
        using "1.IH"[OF True buf1_def _ Some] "1.prems" lc
        by (simp add: buf1_def)
      then show ?thesis using e lc by simp
    qed
  qed
qed

lemma nextCol_slice_bound:
  assumes "nextCol tr = (Inr sl, tr1)" and "slice_bytes (rowBuf tr1) sl \<noteq> []"
  shows "fst sl + snd sl \<le> length (rowBuf tr1)"
proof -
  obtain off where o: "b tr = Some off" and r0: "row tr \<noteq> 0"
    using assms(1) by (auto simp: nextCol_def Let_def split: if_splits option.splits)
  show ?thesis
  proof (cases "IndexByte (drop off (rowBuf tr)) (sep tr)")
    case None
    then have "sl = (off, length (rowBuf tr) - off)" "rowBuf tr1 = rowBuf tr"
      using assms(1) o r0 by (auto simp: nextCol_def Let_def)
    then show ?thesis using assms(2) by (simp add: slice_bytes_def)
  next
    case (Some n)
    then have "sl = (off, n)" "rowBuf tr1 = rowBuf tr"
      using assms(1) o r0 by (auto simp: nextCol_def Let_def)
    moreover have "n < length (drop off (rowBuf tr))"
      using IndexByte_Some[OF Some] by simp
    ultimately show ?thesis by simp
  qed
qed

text \<open>
  When \<open>needUnescape\<close> is set, \<open>Bytes\<close> returns the column unescaped as the
  specification says, and writes only inside the bytes of that column.
\<close>

lemma Bytes_unescapes:
  assumes "err tr = None" and "nextCol tr = (Inr sl, tr1)" and "needUnescape tr"
  shows "fst (Bytes tr) = Some (unescaped (slice_bytes (rowBuf tr1) sl)) \<and>
         (\<exists>buf. snd (Bytes tr) = tr1\<lparr>rowBuf := buf\<rparr> \<and> length buf = length (rowBuf tr1) \<and>
                take (fst sl) buf = take (fst sl) (rowBuf tr1) \<and>
                drop (fst sl + snd sl) buf = drop (fst sl + snd sl) (rowBuf tr1))"
proof -
  let ?col = "slice_bytes (rowBuf tr1) sl"
  have nu: "needUnescape tr1" using nextCol_frame[OF assms(2)] assms(3) by simp
  show ?thesis
  proof (cases "IndexByte ?col backslash")
    case None
    then have "Bytes tr = (Some ?col, tr1)"
      using assms(1,2) nu by (simp add: Bytes_def)
    moreover have "unescaped ?col = ?col"
      using None by (simp add: IndexByte_None unescaped_plain)
    moreover have "tr1 = tr1\<lparr>rowBuf := rowBuf tr1\<rparr>" by simp
    ultimately show ?thesis by (metis fst_conv snd_conv)
  next
    case (Some n)
    obtain cs len where sl: "sl = (cs, len)" by (cases sl)
    from IndexByte_Some[OF Some]
    have d: "?col = take n ?col @ backslash # drop (Suc n) ?col"
      and np: "backslash \<notin> set (take n ?col)" and nl: "n < length ?col" by simp_all
    then have ne: "?col \<noteq> []" by auto
    from nextCol_slice_bound[OF assms(2) ne] have bound: "cs + len \<le> length (rowBuf tr1)"
      by (simp add: sl)
    define P where "P = take cs (rowBuf tr1)"
    define Z where "Z = drop (cs + len) (rowBuf tr1)"
    define pre where "pre = take n ?col"
    define B where "B = drop (Suc n) ?col"
    have col: "?col = pre @ backslash # B" and lpre: "length pre = n"
      using d nl by (simp_all add: pre_def B_def)
    have lcol: "length ?col = len" using bound by (simp add: slice_bytes_def sl)
    have lP: "length P = cs" using bound by (simp add: P_def)
    have "rowBuf tr1 = take cs (rowBuf tr1) @ take len (drop cs (rowBuf tr1)) @ drop len (drop cs (rowBuf tr1))"
      by (simp only: append_take_drop_id)
    then have rbuf: "rowBuf tr1 = P @ ?col @ Z"
      by (simp add: P_def Z_def slice_bytes_def sl add.commute)
    then have rbuf': "rowBuf tr1 = (P @ pre) @ backslash # [] @ B @ Z"
      using col by simp
    have lB: "len = n + 1 + length B" using lcol col lpre by simp
    from unescape_loop_concat[of "P @ pre" backslash "[]" B Z] obtain G' where
      U: "unescape_loop ((P @ pre) @ backslash # [] @ B @ Z) (Suc (length (P @ pre)))
            (Suc (length (P @ pre)) + length ([]::string))
            (Suc (length (P @ pre)) + length ([]::string) + length B)
          = ((P @ pre) @ after_marker backslash B @ G' @ Z,
             length (P @ pre) + length (after_marker backslash B))"
      by blast
    have a1: "cs + (n + 1) = Suc (length (P @ pre))" by (simp add: lP lpre)
    have a2: "cs + (n + 1) = Suc (length (P @ pre)) + length ([]::string)" by (simp add: lP lpre)
    have a3: "cs + len = Suc (length (P @ pre)) + length ([]::string) + length B"
      using lB by (simp add: lP lpre)
    have res: "unescape_loop (rowBuf tr1) (cs + (n + 1)) (cs + (n + 1)) (cs + len)
               = (P @ pre @ after_marker backslash B @ G' @ Z,
                  cs + n + length (after_marker backslash B))"
      using U lB unfolding rbuf'[symmetric]
      by (simp add: lP lpre add.assoc)
    let ?buf = "P @ pre @ after_marker backslash B @ G' @ Z"
    have By: "Bytes tr = (Some (slice_bytes ?buf (cs, cs + n + length (after_marker backslash B) - cs)),
                         tr1\<lparr>rowBuf := ?buf\<rparr>)"
      using assms(1,2) nu Some res by (simp add: Bytes_def sl Let_def)
    have v: "slice_bytes ?buf (cs, cs + n + length (after_marker backslash B) - cs)
             = pre @ after_marker backslash B"
      by (simp add: slice_bytes_def lP lpre)
    have "backslash \<notin> set pre" using np by (simp add: pre_def)
    then have "unescaped (pre @ backslash # B) = pre @ after_marker backslash B"
      by (rule unescaped_prefix)
    then have u: "unescaped ?col = pre @ after_marker backslash B"
      using col by simp
    have "length (fst (unescape_loop (rowBuf tr1) (cs + (n + 1)) (cs + (n + 1)) (cs + len)))
          = length (rowBuf tr1)"
      by (rule unescape_loop_length) (use bound in simp_all)
    then have lb: "length ?buf = length (rowBuf tr1)" using res by simp
    have tk: "take cs ?buf = take cs (rowBuf tr1)"
      by (simp add: lP P_def[symmetric])
    have "length (P @ pre @ after_marker backslash B @ G') = cs + len"
      using lb rbuf bound by (simp add: Z_def)
    then have dp: "drop (cs + len) ?buf = Z"
      by (metis append.assoc append_eq_conv_conj)
    show ?thesis
      using By v u lb tk dp by (auto simp: sl Z_def)
  qed
qed

section \<open>Rows that span several reads\<close>

text \<open>
  Claim C1 says that the rows, the bytes \<open>Bytes\<close> returns and the errors are the same
  however the input is cut into reads, also for rows with escape sequences. \<open>Next\<close> sets
  \<open>needUnescape\<close> from the bytes of the latest \<open>Read\<close> alone. The row a, marker, t, b, c
  delivered in one read is returned unescaped (a, tab, b, c); delivered as a, marker, t, b
  and then c with the newline, the latest read holds no marker, \<open>Bytes\<close> takes its fast
  path and returns the five raw bytes.
\<close>

theorem split_row_read_differently:
  "stream_bytes row_in_two_reads = stream_bytes row_in_one_read \<and>
   read_rows Bytes [1] (NewCSV row_in_one_read) =
     ([[Some [CHR ''a'', CHR 0x09, CHR ''b'', CHR ''c'']]],
      \<lparr> r = [], rb = [], rErr = None, col = 1, row = 1,
        rowBuf = [CHR ''a'', CHR 0x09, CHR ''b'', CHR ''c'', CHR ''c''], b = None, scratch = [],
        err = None, sep = CHR '','', needUnescape = True \<rparr>) \<and>
   read_rows Bytes [1] (NewCSV row_in_two_reads) =
     ([[Some [CHR ''a'', backslash, CHR ''t'', CHR ''b'', CHR ''c'']]],
      \<lparr> r = [], rb = [], rErr = None, col = 1, row = 1,
        rowBuf = [CHR ''a'', backslash, CHR ''t'', CHR ''b'', CHR ''c''], b = None, scratch = [],
        err = None, sep = CHR '','', needUnescape = False \<rparr>)"
  by code_simp

text \<open>
  Claim C3 says that \<open>Bytes\<close> decodes the escape sequences of every column that holds
  the marker, marker and \<open>n\<close> giving one line feed. It does whenever \<open>needUnescape\<close> is
  set (lemma \<open>Bytes_unescapes\<close>). The column x, marker, n, y, whose marker came with the
  read before the latest one, is returned as its four raw bytes.
\<close>

theorem Bytes_keeps_marker:
  "rowBuf (snd (Next (NewCSV marker_before_last_read))) = [CHR ''x'', backslash, CHR ''n'', CHR ''y''] \<and>
   needUnescape (snd (Next (NewCSV marker_before_last_read))) = False \<and>
   fst (Bytes (snd (Next (NewCSV marker_before_last_read)))) =
     Some [CHR ''x'', backslash, CHR ''n'', CHR ''y''] \<and>
   unescaped [CHR ''x'', backslash, CHR ''n'', CHR ''y''] = [CHR ''x'', CHR 0x0A, CHR ''y'']"
  by code_simp

end
